theory Spec2Isabelle
  imports Main "HOL-Library.Word" "HOL-Library.Sublist"
begin

section \<open>Python values and the library functions the service calls\<close>

text \<open>
  A Python \<open>str\<close> is modelled as a \<open>string\<close>: a list of 8-bit characters, read as the
  code points U+0000 to U+00FF. A Python \<open>bytes\<close> value is a list of 8-bit words.
  The library functions below are not part of the repository; they are modelled from
  the documented behaviour of CPython 3.11.
\<close>

type_synonym byte = "8 word"

datatype error =
    UnicodeDecodeError
  | ValueError
  | RuntimeFailure string
  | ValidationError
  | HTTPException nat string
  | CancelledError
  | SystemExit
  | KeyboardInterrupt

definition is_exception :: "error \<Rightarrow> bool" where
  \<comment> \<open>\<open>isinstance(exc, Exception)\<close>: \<open>asyncio.CancelledError\<close>, \<open>SystemExit\<close> and
      \<open>KeyboardInterrupt\<close> derive from \<open>BaseException\<close> only\<close>
  "is_exception exc =
     (case exc of CancelledError \<Rightarrow> False | SystemExit \<Rightarrow> False | KeyboardInterrupt \<Rightarrow> False
      | _ \<Rightarrow> True)"

definition code :: "char \<Rightarrow> nat" where
  "code c = of_char c"

definition isspace :: "char \<Rightarrow> bool" where
  \<comment> \<open>\<open>str.isspace\<close>, the class \<open>\s\<close> of \<open>re\<close> on a \<open>str\<close> pattern, and the characters that
      \<open>str.strip()\<close> and \<open>str.split()\<close> remove, below U+0100.\<close>
  "isspace c \<longleftrightarrow> (9 \<le> code c \<and> code c \<le> 13) \<or> (28 \<le> code c \<and> code c \<le> 32)
                 \<or> code c = 133 \<or> code c = 160"

definition isupper_ascii :: "char \<Rightarrow> bool" where
  "isupper_ascii c \<longleftrightarrow> 65 \<le> code c \<and> code c \<le> 90"

definition islower_ascii :: "char \<Rightarrow> bool" where
  "islower_ascii c \<longleftrightarrow> 97 \<le> code c \<and> code c \<le> 122"

definition isdigit_ascii :: "char \<Rightarrow> bool" where
  "isdigit_ascii c \<longleftrightarrow> 48 \<le> code c \<and> code c \<le> 57"

definition alnum :: "char \<Rightarrow> bool" where
  \<comment> \<open>the regular-expression class \<open>[A-Za-z0-9]\<close>\<close>
  "alnum c \<longleftrightarrow> isupper_ascii c \<or> islower_ascii c \<or> isdigit_ascii c"

definition strip :: "string \<Rightarrow> string" where
  \<comment> \<open>\<open>s.strip()\<close>\<close>
  "strip s = rev (dropWhile isspace (rev (dropWhile isspace s)))"

definition join_split :: "string \<Rightarrow> string" where
  \<comment> \<open>\<open>"".join(s.split())\<close>: every whitespace character is dropped\<close>
  "join_split s = filter (\<lambda>c. \<not> isspace c) s"

definition lower_char :: "char \<Rightarrow> char" where
  \<comment> \<open>\<open>str.lower\<close> on one character below U+0100\<close>
  "lower_char c =
     (if isupper_ascii c \<or> (192 \<le> code c \<and> code c \<le> 222 \<and> code c \<noteq> 215)
      then char_of (code c + 32) else c)"

definition lower :: "string \<Rightarrow> string" where
  "lower s = map lower_char s"

definition endswith :: "string \<Rightarrow> string \<Rightarrow> bool" where
  \<comment> \<open>\<open>s.endswith(suf)\<close>\<close>
  "endswith s suf \<longleftrightarrow> length suf \<le> length s \<and> drop (length s - length suf) s = suf"

definition split_once :: "char \<Rightarrow> string \<Rightarrow> string list" where
  \<comment> \<open>\<open>s.split(sep, 1)\<close> for a one-character separator\<close>
  "split_once sep s =
     (if sep \<in> set s
      then [takeWhile (\<lambda>c. c \<noteq> sep) s, tl (dropWhile (\<lambda>c. c \<noteq> sep) s)]
      else [s])"

definition or_str :: "string \<Rightarrow> string \<Rightarrow> string" where
  \<comment> \<open>\<open>s or d\<close> for a \<open>str\<close> \<open>s\<close>\<close>
  "or_str s d = (if s = [] then d else s)"

definition or_default :: "string option \<Rightarrow> string \<Rightarrow> string" where
  \<comment> \<open>\<open>v or d\<close> for a value that is \<open>None\<close> or a \<open>str\<close>\<close>
  "or_default v d = (case v of None \<Rightarrow> d | Some s \<Rightarrow> or_str s d)"

subsection \<open>\<open>base64.b64decode(s, validate=True)\<close>\<close>

datatype b64_outcome = Decoded | BinasciiError | NonAscii

definition b64_digit :: "char \<Rightarrow> bool" where
  "b64_digit c \<longleftrightarrow> alnum c \<or> c = CHR ''+'' \<or> c = CHR ''/''"

text \<open>
  The strict-mode scan of \<open>binascii.a2b_base64\<close>: \<open>quad_pos\<close> is the position in the
  current group of four digits, \<open>pads\<close> the number of padding characters since the last
  digit, \<open>padding_started\<close> whether a padding character has been read. The result is
  whether the scan ends without \<open>binascii.Error\<close>.
\<close>

fun a2b_scan :: "nat \<Rightarrow> nat \<Rightarrow> bool \<Rightarrow> string \<Rightarrow> bool" where
  "a2b_scan quad_pos pads padding_started [] = (quad_pos = 0)"
| "a2b_scan quad_pos pads padding_started (c # cs) =
     (if c = CHR ''='' then
        (if 2 \<le> quad_pos \<and> 4 \<le> quad_pos + (pads + 1) then cs = []
         else if 2 \<le> quad_pos then a2b_scan quad_pos (pads + 1) True cs
         else a2b_scan quad_pos pads True cs)
      else if \<not> b64_digit c then False
      else if padding_started then False
      else a2b_scan ((quad_pos + 1) mod 4) 0 padding_started cs)"

definition b64decode_validate :: "string \<Rightarrow> b64_outcome" where
  \<comment> \<open>a \<open>str\<close> argument with a non-ASCII character raises a plain \<open>ValueError\<close>, which is not
      a \<open>binascii.Error\<close>; a leading padding character is refused before the scan\<close>
  "b64decode_validate s =
     (if \<exists>c \<in> set s. 128 \<le> code c then NonAscii
      else if s \<noteq> [] \<and> hd s = CHR ''='' then BinasciiError
      else if a2b_scan 0 0 False s then Decoded
      else BinasciiError)"

subsection \<open>\<open>base64.b64encode\<close> and the UTF-8 codec\<close>

definition b64_alphabet :: string where
  "b64_alphabet = ''ABCDEFGHIJKLMNOPQRSTUVWXYZabcdefghijklmnopqrstuvwxyz0123456789+/''"

definition b64_char :: "nat \<Rightarrow> char" where
  "b64_char n = b64_alphabet ! (n mod 64)"

fun b64encode :: "byte list \<Rightarrow> string" where
  "b64encode [] = []"
| "b64encode [a] =
     [b64_char (unat a div 4), b64_char ((unat a mod 4) * 16), CHR ''='', CHR ''='']"
| "b64encode [a, b] =
     [b64_char (unat a div 4), b64_char ((unat a mod 4) * 16 + unat b div 16),
      b64_char ((unat b mod 16) * 4), CHR ''='']"
| "b64encode (a # b # c # r) =
     [b64_char (unat a div 4), b64_char ((unat a mod 4) * 16 + unat b div 16),
      b64_char ((unat b mod 16) * 4 + unat c div 64), b64_char (unat c mod 64)]
     @ b64encode r"

definition utf8_encode :: "string \<Rightarrow> byte list" where
  \<comment> \<open>\<open>s.encode("utf-8")\<close> for code points below U+0100: one byte below U+0080, two above\<close>
  "utf8_encode s =
     concat (map (\<lambda>c. if code c < 128 then [of_nat (code c)]
                        else [of_nat (192 + code c div 64), of_nat (128 + code c mod 64)]) s)"

definition utf8_cont :: "byte \<Rightarrow> bool" where
  "utf8_cont b \<longleftrightarrow> 128 \<le> unat b \<and> unat b \<le> 191"

fun utf8_wellformed :: "byte list \<Rightarrow> bool" where
  \<comment> \<open>whether \<open>b.decode("utf-8")\<close> returns: the well-formed byte sequences of the Unicode
      standard (no overlong form, no surrogate, nothing above U+10FFFF)\<close>
  "utf8_wellformed [] = True"
| "utf8_wellformed (a # bs) =
     (if unat a < 128 then utf8_wellformed bs
      else if 194 \<le> unat a \<and> unat a \<le> 223 then
        (case bs of b # r \<Rightarrow> utf8_cont b \<and> utf8_wellformed r | _ \<Rightarrow> False)
      else if 224 \<le> unat a \<and> unat a \<le> 239 then
        (case bs of b # c # r \<Rightarrow>
             (if unat a = 224 then 160 \<le> unat b \<and> unat b \<le> 191
              else if unat a = 237 then 128 \<le> unat b \<and> unat b \<le> 159
              else utf8_cont b)
             \<and> utf8_cont c \<and> utf8_wellformed r
         | _ \<Rightarrow> False)
      else if 240 \<le> unat a \<and> unat a \<le> 244 then
        (case bs of b # c # d # r \<Rightarrow>
             (if unat a = 240 then 144 \<le> unat b \<and> unat b \<le> 191
              else if unat a = 244 then 128 \<le> unat b \<and> unat b \<le> 143
              else utf8_cont b)
             \<and> utf8_cont c \<and> utf8_cont d \<and> utf8_wellformed r
         | _ \<Rightarrow> False)
      else False)"

section \<open>Artifacts\<close>

text \<open>
  An artifact entry is a Python dict from field names to values that are \<open>None\<close> or a
  \<open>str\<close>; it is kept as the association list of its items in insertion order, so that a
  missing key differs from a key bound to \<open>None\<close>. \<open>PyDecoded b\<close> is the \<open>str\<close> that
  \<open>b.decode("utf-8")\<close> returns, kept by its encoding.
\<close>

datatype pyval = PyNone | PyStr string | PyDecoded "byte list"

type_synonym artifact = "(string \<times> pyval) list"

definition opt_val :: "string option \<Rightarrow> pyval" where
  "opt_val v = (case v of None \<Rightarrow> PyNone | Some s \<Rightarrow> PyStr s)"

definition artifact_key :: "artifact \<Rightarrow> (pyval \<times> pyval) option" where
  \<comment> \<open>the pair \<open>(name, data)\<close> of an entry that has both fields\<close>
  "artifact_key a =
     (case (map_of a ''name'', map_of a ''data'') of
        (Some n, Some d) \<Rightarrow> Some (n, d)
      | _ \<Rightarrow> None)"

section \<open>The inline figure extractor\<close>

text \<open>
  \<open>_FIGURE_DATA_PATTERN\<close> is
  \<^verbatim>\<open>FIGURE(?:\[(?P<title>[^\]]+)\])?:\s*(?P<data>data:image/[a-zA-Z0-9.+\-]+;base64,[A-Za-z0-9+/=\s]+)\<close>.
  Every repetition in it is greedy and is followed by a character outside the repeated
  class (or by the end of the pattern), and the optional group starts with a bracket
  where the alternative needs a colon, so backtracking never finds a second way to
  match: an attempt at one position is the left-to-right scan \<open>match_at\<close>.
\<close>

record figure_match =
  group0 :: string
  title :: "string option"
  data :: string

definition mime_char :: "char \<Rightarrow> bool" where
  \<comment> \<open>\<open>[a-zA-Z0-9.+\-]\<close>\<close>
  "mime_char c \<longleftrightarrow> alnum c \<or> c = CHR ''.'' \<or> c = CHR ''+'' \<or> c = CHR ''-''"

definition payload_char :: "char \<Rightarrow> bool" where
  \<comment> \<open>\<open>[A-Za-z0-9+/=\s]\<close>\<close>
  "payload_char c \<longleftrightarrow> alnum c \<or> c = CHR ''+'' \<or> c = CHR ''/'' \<or> c = CHR ''='' \<or> isspace c"

definition name_char :: "char \<Rightarrow> bool" where
  \<comment> \<open>\<open>[A-Za-z0-9._-]\<close>\<close>
  "name_char c \<longleftrightarrow> alnum c \<or> c = CHR ''.'' \<or> c = CHR ''_'' \<or> c = CHR ''-''"

fun strip_prefix :: "string \<Rightarrow> string \<Rightarrow> string option" where
  \<comment> \<open>match a literal: the rest of the text after it\<close>
  "strip_prefix [] s = Some s"
| "strip_prefix (p # ps) [] = None"
| "strip_prefix (p # ps) (c # cs) = (if p = c then strip_prefix ps cs else None)"

definition match_title :: "string \<Rightarrow> (string option \<times> string) option" where
  \<comment> \<open>\<open>(?:\[(?P<title>[^\]]+)\])?\<close>\<close>
  "match_title s =
     (case s of
        [] \<Rightarrow> Some (None, s)
      | c # r \<Rightarrow>
          if c = CHR ''['' then
            (let t = takeWhile (\<lambda>x. x \<noteq> CHR '']'') r;
                 r' = dropWhile (\<lambda>x. x \<noteq> CHR '']'') r
             in if t = [] \<or> r' = [] then None else Some (Some t, tl r'))
          else Some (None, s))"

definition match_at :: "string \<Rightarrow> (figure_match \<times> string) option" where
  \<comment> \<open>a match of the pattern that starts at the head of the text, with the text after it\<close>
  "match_at s =
     (case strip_prefix ''FIGURE'' s of None \<Rightarrow> None | Some s1 \<Rightarrow>
      (case match_title s1 of None \<Rightarrow> None | Some (t, s2) \<Rightarrow>
       (case strip_prefix '':'' s2 of None \<Rightarrow> None | Some s3 \<Rightarrow>
        (case strip_prefix ''data:image/'' (dropWhile isspace s3) of None \<Rightarrow> None | Some s5 \<Rightarrow>
         (if takeWhile mime_char s5 = [] then None
          else
           (case strip_prefix '';base64,'' (dropWhile mime_char s5) of None \<Rightarrow> None | Some s7 \<Rightarrow>
            (if takeWhile payload_char s7 = [] then None
             else Some (\<lparr>group0 = take (length s - length (dropWhile payload_char s7)) s,
                         title = t,
                         data = ''data:image/'' @ takeWhile mime_char s5 @ '';base64,''
                                @ takeWhile payload_char s7\<rparr>,
                        dropWhile payload_char s7))))))))"

function sub_unsafe :: "string \<Rightarrow> string" where
  \<comment> \<open>\<open>re.sub(r"[^A-Za-z0-9._-]+", "_", s)\<close>: each maximal run of characters outside the
      class becomes one underscore\<close>
  "sub_unsafe [] = []"
| "sub_unsafe (c # cs) =
     (if name_char c then c # sub_unsafe cs
      else CHR ''_'' # sub_unsafe (dropWhile (\<lambda>x. \<not> name_char x) cs))"
  by pat_completeness auto
termination
  by (relation "measure length") (auto simp: le_imp_less_Suc length_dropWhile_le)

definition figure_replace :: "figure_match \<Rightarrow> error + (string \<times> artifact option)" where
  \<comment> \<open>the callback \<open>_replace\<close>: the replacement text and the artifact it appends, if any\<close>
  "figure_replace m =
     (let data_uri = data m;
          title = or_default (title m) ''figure''
      in case split_once CHR '','' data_uri of
           [uri_prefix, encoded] \<Rightarrow>
             (let mime_type = or_str (hd (split_once CHR '';'' (drop (length ''data:'') uri_prefix)))
                                     ''image/png'';
                  encoded_clean = join_split encoded
              in case b64decode_validate encoded_clean of
                   BinasciiError \<Rightarrow> Inr (group0 m, None)
                 | NonAscii \<Rightarrow> Inl ValueError
                 | Decoded \<Rightarrow>
                     (let safe_name = sub_unsafe (or_str (strip title) ''figure'')
                      in Inr (''[See figure: '' @ or_str (strip title) safe_name @ '']'',
                              Some [(''name'', PyStr (if \<not> endswith (lower safe_name) ''.png''
                                                      then safe_name @ ''.png'' else safe_name)),
                                    (''mime_type'', PyStr mime_type),
                                    (''data'', PyStr encoded_clean),
                                    (''display_name'', PyStr (or_str (strip title) safe_name))])))
         | _ \<Rightarrow> Inr (group0 m, None))"

lemma strip_prefix_Some: "strip_prefix p s = Some r \<longleftrightarrow> s = p @ r"
  by (induction p s rule: strip_prefix.induct) auto

lemma length_tl_dropWhile: "length (tl (dropWhile P xs)) \<le> length xs"
  using length_dropWhile_le [of P xs] by simp

lemma match_title_length: "match_title s = Some (t, r) \<Longrightarrow> length r \<le> length s"
  using length_tl_dropWhile [of "\<lambda>x. x \<noteq> CHR '']''" "tl s"]
  by (cases s) (auto simp: match_title_def Let_def split: if_splits)

lemma match_at_shorter: "match_at s = Some (m, rest) \<Longrightarrow> length rest < length s"
proof -
  assume a: "match_at s = Some (m, rest)"
  then obtain s1 t s2 s3 s5 s7 where
    1: "s = ''FIGURE'' @ s1" and 2: "match_title s1 = Some (t, s2)" and
    3: "s2 = '':'' @ s3" and 5: "dropWhile isspace s3 = ''data:image/'' @ s5" and
    7: "dropWhile mime_char s5 = '';base64,'' @ s7" and r: "rest = dropWhile payload_char s7"
    unfolding match_at_def
    by (auto simp: strip_prefix_Some split: option.splits if_splits prod.splits)
  have "length rest \<le> length s7" using r by (simp add: length_dropWhile_le)
  also have "\<dots> \<le> length (dropWhile mime_char s5)" using 7 by simp
  also have "\<dots> \<le> length s5" by (rule length_dropWhile_le)
  also have "\<dots> \<le> length (dropWhile isspace s3)" using 5 by simp
  also have "\<dots> \<le> length s3" by (rule length_dropWhile_le)
  also have "\<dots> \<le> length s2" using 3 by simp
  also have "\<dots> \<le> length s1" using 2 by (rule match_title_length)
  also have "\<dots> < length s" using 1 by simp
  finally show ?thesis .
qed

function pattern_sub :: "string \<Rightarrow> error + (string \<times> artifact list)" where
  \<comment> \<open>\<open>_FIGURE_DATA_PATTERN.sub(_replace, text)\<close>: the text is scanned from the left; a
      match is replaced by what the callback returns and the scan goes on after it,
      another character is copied. The second component is the list \<open>artifacts\<close> that the
      callback appends to.\<close>
  "pattern_sub [] = Inr ([], [])"
| "pattern_sub (c # cs) =
     (case match_at (c # cs) of
        None \<Rightarrow>
          (case pattern_sub cs of
             Inl e \<Rightarrow> Inl e
           | Inr (out, arts) \<Rightarrow> Inr (c # out, arts))
      | Some (m, rest) \<Rightarrow>
          (case figure_replace m of
             Inl e \<Rightarrow> Inl e
           | Inr (repl, a) \<Rightarrow>
               (case pattern_sub rest of
                  Inl e \<Rightarrow> Inl e
                | Inr (out, arts) \<Rightarrow>
                    Inr (repl @ out, (case a of None \<Rightarrow> [] | Some x \<Rightarrow> [x]) @ arts))))"
  by pat_completeness auto
termination
proof (relation "measure length")
  show "wf (measure length)" by simp
next
  fix c cs
  show "(cs, c # cs) \<in> measure length" by simp
next
  fix c :: char and cs x2 x y xa ya
  assume "match_at (c # cs) = Some x2" and "(x, y) = x2"
  then show "(y, c # cs) \<in> measure length"
    using match_at_shorter [of "c # cs" x y] by simp
qed

definition extract_embedded_figures :: "string \<Rightarrow> error + (string \<times> artifact list)" where
  \<comment> \<open>\<open>_extract_embedded_figures\<close>\<close>
  "extract_embedded_figures text = (if text = [] then Inr (text, []) else pattern_sub text)"


text \<open>
  The markers that the pattern finds in a text, as \<open>finditer\<close> lists them: leftmost first
  and not overlapping. The payload of a match is what follows the first comma of its
  data URI; a match is malformed when its payload, whitespace removed, is refused by
  the base64 decoder.
\<close>

function figure_matches :: "string \<Rightarrow> figure_match list" where
  "figure_matches [] = []"
| "figure_matches (c # cs) =
     (case match_at (c # cs) of
        None \<Rightarrow> figure_matches cs
      | Some (m, rest) \<Rightarrow> m # figure_matches rest)"
  by pat_completeness auto
termination
proof (relation "measure length")
  show "wf (measure length)" by simp
next
  fix c cs
  show "(cs, c # cs) \<in> measure length" by simp
next
  fix c :: char and cs x2 x y
  assume "match_at (c # cs) = Some x2" and "(x, y) = x2"
  then show "(y, c # cs) \<in> measure length"
    using match_at_shorter [of "c # cs" x y] by simp
qed

definition payload :: "figure_match \<Rightarrow> string" where
  "payload m = tl (dropWhile (\<lambda>c. c \<noteq> CHR '','') (data m))"

definition malformed :: "figure_match \<Rightarrow> bool" where
  "malformed m \<longleftrightarrow> b64decode_validate (join_split (payload m)) \<noteq> Decoded"

section \<open>Events of a turn\<close>

datatype pydata = PyBytes "byte list" | PyText string

record blob =
  blob_data :: "pydata option"
  blob_mime_type :: "string option"
  blob_display_name :: "string option"

record output_file =
  file_content :: "string option"
  file_name :: "string option"
  file_mime_type :: "string option"
  file_display_name :: "string option"

type_synonym pydict = "(string \<times> string) list"

record function_call =
  call_name :: "string option"
  call_args :: "pydict option"

record function_response =
  response_name :: "string option"
  response_value :: "pydict option"

record code_execution_result =
  output_files :: "output_file list option"

record part =
  part_text :: "string option"
  part_function_call :: "function_call option"
  part_function_response :: "function_response option"
  part_code_execution_result :: "code_execution_result option"
  part_inline_data :: "blob option"

record content =
  parts :: "part list option"

record actions =
  artifact_delta :: "(string \<times> int) list option"

record event =
  event_content :: "content option"
  event_actions :: "actions option"

record tool_call =
  tool_name :: "string option"
  tool_args :: pydict

record tool_response =
  tool_response_name :: "string option"
  tool_response_value :: pydict

section \<open>The event aggregator: \<open>send_message\<close>\<close>

text \<open>
  The five local variables of \<open>send_message\<close> that the loop over the events updates.
\<close>

record turn =
  text_chunks :: "string list"
  tool_calls :: "tool_call list"
  tool_responses :: "tool_response list"
  artifacts :: "artifact list"
  seen_artifacts :: "(string \<times> string) set"

definition new_turn :: turn where
  "new_turn = \<lparr>text_chunks = [], tool_calls = [], tool_responses = [], artifacts = [],
               seen_artifacts = {}\<rparr>"

definition truthy :: "pydata \<Rightarrow> bool" where
  \<comment> \<open>the truth value of a \<open>bytes\<close> or \<open>str\<close>: it is not empty\<close>
  "truthy d = (case d of PyBytes b \<Rightarrow> b \<noteq> [] | PyText s \<Rightarrow> s \<noteq> [])"

definition add_output_file :: "output_file \<Rightarrow> turn \<Rightarrow> turn" where
  \<comment> \<open>the body of the loop over \<open>output_files\<close>, lines 90 to 109\<close>
  "add_output_file f st =
     (case file_content f of
        None \<Rightarrow> st
      | Some encoded \<Rightarrow>
          if encoded = [] then st
          else
            (let name = or_default (file_name f) ''artifact'';
                 key = (name, encoded)
             in if key \<in> seen_artifacts st then st
                else st\<lparr>artifacts := artifacts st @
                          [[(''name'', PyStr name),
                            (''mime_type'',
                             PyStr (or_default (file_mime_type f) ''application/octet-stream'')),
                            (''data'', PyStr encoded),
                            (''display_name'', PyStr (or_default (file_display_name f) name))]],
                        seen_artifacts := insert key (seen_artifacts st)\<rparr>))"

definition add_inline_raw :: "blob \<Rightarrow> turn \<Rightarrow> error + turn" where
  \<comment> \<open>the first inline-data block, lines 110 to 122: no \<open>name\<close>, no membership check\<close>
  "add_inline_raw inline st =
     (case blob_data inline of
        None \<Rightarrow> Inr st
      | Some d \<Rightarrow>
          if truthy d then
            (case d of
               PyBytes b \<Rightarrow>
                 if utf8_wellformed b then
                   Inr (st\<lparr>artifacts := artifacts st @
                          [[(''mime_type'',
                             PyStr (or_default (blob_mime_type inline) ''application/octet-stream'')),
                            (''data'', PyDecoded b),
                            (''display_name'', opt_val (blob_display_name inline))]]\<rparr>)
                 else Inl UnicodeDecodeError
             | PyText s \<Rightarrow>
                 Inr (st\<lparr>artifacts := artifacts st @
                        [[(''mime_type'',
                           PyStr (or_default (blob_mime_type inline) ''application/octet-stream'')),
                          (''data'', PyStr s),
                          (''display_name'', opt_val (blob_display_name inline))]]\<rparr>))
          else Inr st)"

definition encode_payload :: "pydata \<Rightarrow> error + string" where
  \<comment> \<open>lines 126 to 136, and again 166 to 176: a \<open>str\<close> that decodes is kept, another
      \<open>str\<close> and any \<open>bytes\<close> are encoded\<close>
  "encode_payload raw_bytes =
     (case raw_bytes of
        PyText s \<Rightarrow>
          (case b64decode_validate s of
             Decoded \<Rightarrow> Inr s
           | BinasciiError \<Rightarrow> Inr (b64encode (utf8_encode s))
           | NonAscii \<Rightarrow> Inl ValueError)
      | PyBytes b \<Rightarrow> Inr (b64encode b))"

definition add_artifact ::
  "string \<Rightarrow> string \<Rightarrow> string \<Rightarrow> pyval \<Rightarrow> turn \<Rightarrow> turn" where
  \<comment> \<open>\<open>if key not in seen_artifacts: artifacts.append({...}); seen_artifacts.add(key)\<close>\<close>
  "add_artifact name mime_type encoded display_name st =
     (if (name, encoded) \<notin> seen_artifacts st
      then st\<lparr>artifacts := artifacts st @
                 [[(''name'', PyStr name), (''mime_type'', PyStr mime_type),
                   (''data'', PyStr encoded), (''display_name'', display_name)]],
               seen_artifacts := insert (name, encoded) (seen_artifacts st)\<rparr>
      else st)"

definition add_inline :: "blob \<Rightarrow> turn \<Rightarrow> error + turn" where
  \<comment> \<open>the second inline-data block, lines 124 to 149\<close>
  "add_inline inline st =
     (case blob_data inline of
        None \<Rightarrow> Inr st
      | Some raw_bytes \<Rightarrow>
          if truthy raw_bytes then
            (case encode_payload raw_bytes of
               Inl e \<Rightarrow> Inl e
             | Inr encoded \<Rightarrow>
                 Inr (add_artifact (or_default (blob_display_name inline) ''artifact'')
                        (or_default (blob_mime_type inline) ''application/octet-stream'')
                        encoded (opt_val (blob_display_name inline)) st))
          else Inr st)"

definition add_text :: "part \<Rightarrow> turn \<Rightarrow> turn" where
  \<comment> \<open>lines 71 and 72: a part with a non-empty text adds it to the chunks\<close>
  "add_text p st =
     (case part_text p of
        Some t \<Rightarrow> if t \<noteq> [] then st\<lparr>text_chunks := text_chunks st @ [t]\<rparr> else st
      | None \<Rightarrow> st)"

definition add_tool_call :: "part \<Rightarrow> turn \<Rightarrow> turn" where
  \<comment> \<open>lines 73 to 79\<close>
  "add_tool_call p st =
     (case part_function_call p of
        Some fc \<Rightarrow>
          st\<lparr>tool_calls := tool_calls st @
               [\<lparr>tool_name = call_name fc,
                 tool_args = (case call_args fc of None \<Rightarrow> [] | Some a \<Rightarrow> a)\<rparr>]\<rparr>
      | None \<Rightarrow> st)"

definition add_tool_response :: "part \<Rightarrow> turn \<Rightarrow> turn" where
  \<comment> \<open>lines 80 to 86\<close>
  "add_tool_response p st =
     (case part_function_response p of
        Some fr \<Rightarrow>
          st\<lparr>tool_responses := tool_responses st @
               [\<lparr>tool_response_name = response_name fr,
                 tool_response_value = (case response_value fr of None \<Rightarrow> [] | Some a \<Rightarrow> a)\<rparr>]\<rparr>
      | None \<Rightarrow> st)"

definition add_output_files :: "part \<Rightarrow> turn \<Rightarrow> turn" where
  \<comment> \<open>lines 87 to 109: the loop over the output files of a code-execution result\<close>
  "add_output_files p st =
     (case part_code_execution_result p of
        Some code_result \<Rightarrow>
          fold add_output_file (case output_files code_result of None \<Rightarrow> [] | Some fs \<Rightarrow> fs) st
      | None \<Rightarrow> st)"

definition add_inline_data :: "part \<Rightarrow> turn \<Rightarrow> error + turn" where
  \<comment> \<open>lines 110 to 149: both inline-data blocks, one after the other\<close>
  "add_inline_data p st =
     (case part_inline_data p of
        None \<Rightarrow> Inr st
      | Some inline \<Rightarrow>
          (case add_inline_raw inline st of
             Inl e \<Rightarrow> Inl e
           | Inr st' \<Rightarrow> add_inline inline st'))"

definition process_part :: "part \<Rightarrow> turn \<Rightarrow> error + turn" where
  \<comment> \<open>the body of \<open>for part in content.parts\<close>, lines 71 to 149\<close>
  "process_part p st =
     add_inline_data p (add_output_files p (add_tool_response p (add_tool_call p (add_text p st))))"

fun fold_err :: "('a \<Rightarrow> 's \<Rightarrow> error + 's) \<Rightarrow> 'a list \<Rightarrow> 's \<Rightarrow> error + 's" where
  \<comment> \<open>a \<open>for\<close> loop whose body may raise: the first exception ends it\<close>
  "fold_err f [] s = Inr s"
| "fold_err f (x # xs) s = (case f x s of Inl e \<Rightarrow> Inl e | Inr s' \<Rightarrow> fold_err f xs s')"

type_synonym artifact_store = "string \<Rightarrow> int \<Rightarrow> error + part option"

definition add_delta :: "artifact_store \<Rightarrow> string \<times> int \<Rightarrow> turn \<Rightarrow> error + turn" where
  \<comment> \<open>the body of \<open>for filename, version in artifact_delta.items()\<close>, lines 155 to 189\<close>
  "add_delta load_artifact fv st =
     (case load_artifact (fst fv) (snd fv) of
        Inl e \<Rightarrow> Inl e
      | Inr None \<Rightarrow> Inr st
      | Inr (Some artifact_part) \<Rightarrow>
          (case part_inline_data artifact_part of
             None \<Rightarrow> Inr st
           | Some inline \<Rightarrow>
               (case blob_data inline of
                  None \<Rightarrow> Inr st
                | Some raw_bytes \<Rightarrow>
                    if truthy raw_bytes then
                      (case encode_payload raw_bytes of
                         Inl e \<Rightarrow> Inl e
                       | Inr encoded \<Rightarrow>
                           Inr (add_artifact (fst fv)
                                  (or_default (blob_mime_type inline) ''application/octet-stream'')
                                  encoded
                                  (PyStr (or_default (blob_display_name inline) (fst fv))) st))
                    else Inr st)))"

definition process_event :: "artifact_store option \<Rightarrow> event \<Rightarrow> turn \<Rightarrow> error + turn" where
  \<comment> \<open>the body of \<open>async for event in ...\<close>, lines 66 to 189; an event without content or
      without parts is skipped whole, its artifact delta included\<close>
  "process_event artifact_service ev st =
     (case event_content ev of
        None \<Rightarrow> Inr st
      | Some c \<Rightarrow>
          (case parts c of
             None \<Rightarrow> Inr st
           | Some ps \<Rightarrow>
               if ps = [] then Inr st
               else
                 (case fold_err process_part ps st of
                    Inl e \<Rightarrow> Inl e
                  | Inr st' \<Rightarrow>
                      (case (case event_actions ev of None \<Rightarrow> None | Some a \<Rightarrow> artifact_delta a) of
                         None \<Rightarrow> Inr st'
                       | Some delta \<Rightarrow>
                           (case artifact_service of
                              None \<Rightarrow> Inr st'
                            | Some load_artifact \<Rightarrow>
                                fold_err (add_delta load_artifact) delta st')))))"

text \<open>
  The stream that \<open>run_async\<close> yields for one turn: the events it yields, and the
  exception it raises after them, if it does not end normally.
\<close>

type_synonym event_stream = "event list \<times> error option"

definition consume_events :: "artifact_store option \<Rightarrow> event_stream \<Rightarrow> error + turn" where
  \<comment> \<open>the whole loop, lines 61 to 189\<close>
  "consume_events artifact_service stream =
     (case fold_err (process_event artifact_service) (fst stream) new_turn of
        Inl e \<Rightarrow> Inl e
      | Inr st \<Rightarrow> (case snd stream of Some e \<Rightarrow> Inl e | None \<Rightarrow> Inr st))"

record result =
  result_text :: string
  result_tool_calls :: "tool_call list"
  result_tool_responses :: "tool_response list"
  result_artifacts :: "artifact list"

definition collate :: "turn \<Rightarrow> error + result" where
  \<comment> \<open>lines 191 to 203\<close>
  "collate st =
     (let combined_text = strip (concat (text_chunks st))
      in case extract_embedded_figures combined_text of
           Inl e \<Rightarrow> Inl e
         | Inr (cleaned_text, embedded_artifacts) \<Rightarrow>
             Inr \<lparr>result_text = cleaned_text,
                  result_tool_calls = tool_calls st,
                  result_tool_responses = tool_responses st,
                  result_artifacts = artifacts st @ embedded_artifacts\<rparr>)"

section \<open>The session registry and the service\<close>

record session =
  session_user_id :: string
  session_id :: string

text \<open>
  The runner is outside the repository. Its session service creates a session from its
  own state \<open>'rt\<close>; for one turn it yields a stream; its artifact store, when it has
  one, loads a part by file name and version.
\<close>

record 'rt runner =
  create_session :: "'rt \<Rightarrow> string \<Rightarrow> (error + session) \<times> 'rt"
  run_async :: "session \<Rightarrow> string \<Rightarrow> event_stream"
  artifact_service :: "(session \<Rightarrow> artifact_store) option"

record 'rt service =
  runner_state :: 'rt
  sessions :: "string \<rightharpoonup> session"

definition ensure_session ::
  "'rt runner \<Rightarrow> 'rt service \<Rightarrow> string \<Rightarrow> (error + session) \<times> 'rt service" where
  \<comment> \<open>\<open>_ensure_session\<close>\<close>
  "ensure_session R svc user_id =
     (case sessions svc user_id of
        Some s \<Rightarrow> (Inr s, svc)
      | None \<Rightarrow>
          (case create_session R (runner_state svc) user_id of
             (Inl e, rt) \<Rightarrow> (Inl e, svc\<lparr>runner_state := rt\<rparr>)
           | (Inr s, rt) \<Rightarrow>
               (Inr s, svc\<lparr>runner_state := rt, sessions := (sessions svc)(user_id \<mapsto> s)\<rparr>)))"

fun ensure_sessions :: "'rt runner \<Rightarrow> string list \<Rightarrow> 'rt service \<Rightarrow> 'rt service" where
  \<comment> \<open>the service after one call of \<open>_ensure_session\<close> for each user of the list\<close>
  "ensure_sessions R [] svc = svc"
| "ensure_sessions R (u # us) svc = ensure_sessions R us (snd (ensure_session R svc u))"

definition send_message ::
  "'rt runner \<Rightarrow> 'rt service \<Rightarrow> string \<Rightarrow> string \<Rightarrow> (error + result) \<times> 'rt service" where
  "send_message R svc user_id message =
     (case ensure_session R svc user_id of
        (Inl e, svc') \<Rightarrow> (Inl e, svc')
      | (Inr s, svc') \<Rightarrow>
          (case consume_events (map_option (\<lambda>load. load s) (artifact_service R))
                  (run_async R s message) of
             Inl e \<Rightarrow> (Inl e, svc')
           | Inr st \<Rightarrow> (collate st, svc')))"

section \<open>The API boundary\<close>

record chat_request =
  request_user_id :: string
  request_message :: string

record Artifact =
  artifact_name :: string
  artifact_mime_type :: string
  artifact_data :: pyval
  artifact_display_name :: pyval

record ToolCall =
  ToolCall_name :: string
  ToolCall_args :: pydict

record ToolResponse =
  ToolResponse_name :: string
  ToolResponse_response :: pydict

record ChatResponse =
  response_text :: string
  response_tool_calls :: "ToolCall list"
  response_tool_responses :: "ToolResponse list"
  response_artifacts :: "Artifact list"

definition is_str :: "pyval \<Rightarrow> bool" where
  "is_str v = (case v of PyNone \<Rightarrow> False | _ \<Rightarrow> True)"

definition validate_Artifact :: "artifact \<Rightarrow> error + Artifact" where
  \<comment> \<open>\<open>Artifact(**item)\<close>: \<open>name\<close>, \<open>mime_type\<close> and \<open>data\<close> are required and are \<open>str\<close>;
      \<open>display_name\<close> may be missing or \<open>None\<close>\<close>
  "validate_Artifact item =
     (case (map_of item ''name'', map_of item ''mime_type'', map_of item ''data'') of
        (Some (PyStr n), Some (PyStr m), Some d) \<Rightarrow>
          if is_str d
          then Inr \<lparr>artifact_name = n, artifact_mime_type = m, artifact_data = d,
                    artifact_display_name =
                      (case map_of item ''display_name'' of None \<Rightarrow> PyNone | Some v \<Rightarrow> v)\<rparr>
          else Inl ValidationError
      | _ \<Rightarrow> Inl ValidationError)"

definition validate_ToolCall :: "tool_call \<Rightarrow> error + ToolCall" where
  "validate_ToolCall item =
     (case tool_name item of
        None \<Rightarrow> Inl ValidationError
      | Some n \<Rightarrow> Inr \<lparr>ToolCall_name = n, ToolCall_args = tool_args item\<rparr>)"

definition validate_ToolResponse :: "tool_response \<Rightarrow> error + ToolResponse" where
  "validate_ToolResponse item =
     (case tool_response_name item of
        None \<Rightarrow> Inl ValidationError
      | Some n \<Rightarrow> Inr \<lparr>ToolResponse_name = n, ToolResponse_response = tool_response_value item\<rparr>)"

fun validate_all :: "('a \<Rightarrow> error + 'b) \<Rightarrow> 'a list \<Rightarrow> error + 'b list" where
  \<comment> \<open>a list comprehension over a constructor that may raise\<close>
  "validate_all f [] = Inr []"
| "validate_all f (x # xs) =
     (case f x of
        Inl e \<Rightarrow> Inl e
      | Inr y \<Rightarrow> (case validate_all f xs of Inl e \<Rightarrow> Inl e | Inr ys \<Rightarrow> Inr (y # ys)))"

definition create_chat_completion ::
  "'rt runner \<Rightarrow> 'rt service \<Rightarrow> chat_request \<Rightarrow> (error + ChatResponse) \<times> 'rt service" where
  \<comment> \<open>only the call of \<open>send_message\<close> stands in the \<open>try\<close> block, and the handler is
      \<open>except Exception\<close>: another exception goes through as it is; the response model is
      built after the block\<close>
  "create_chat_completion R svc request =
     (case send_message R svc (request_user_id request) (request_message request) of
        (Inl exc, svc') \<Rightarrow>
          (if is_exception exc
           then (Inl (HTTPException 500 ''Failed to retrieve agent response.''), svc')
           else (Inl exc, svc'))
      | (Inr r, svc') \<Rightarrow>
          (case validate_all validate_ToolCall (result_tool_calls r) of
             Inl e \<Rightarrow> (Inl e, svc')
           | Inr tcs \<Rightarrow>
               (case validate_all validate_ToolResponse (result_tool_responses r) of
                  Inl e \<Rightarrow> (Inl e, svc')
                | Inr trs \<Rightarrow>
                    (case validate_all validate_Artifact (result_artifacts r) of
                       Inl e \<Rightarrow> (Inl e, svc')
                     | Inr arts \<Rightarrow>
                         (Inr \<lparr>response_text = result_text r, response_tool_calls = tcs,
                               response_tool_responses = trs, response_artifacts = arts\<rparr>,
                          svc')))))"

section \<open>Notions used to state the claims\<close>

text \<open>
  \<open>shown_title\<close> is the title that the callback shows and derives the name from.
  \<open>artifact_keys\<close> lists the pairs \<open>(name, data)\<close> of the entries that have both fields;
  \<open>turn_inv\<close> says that these pairs do not repeat and are the members of the seen set, and
  \<open>grows\<close> that a step only appends artifacts and keeps that invariant.
  \<open>text_fragments\<close> are the text fragments of the events, in the order of arrival.
  \<open>stub_runner\<close> is a stub runtime that yields a fixed stream, as in the end-to-end
  scenarios of the specification, and \<open>new_service\<close> the service as \<open>__init__\<close> leaves it.
  \<open>underscore_char\<close> and \<open>squeeze_unsafe\<close> are the name derivation in the words of the
  specification: every character outside \<open>[A-Za-z0-9._-]\<close> becomes an underscore, once
  every run of such characters has been shortened to its first character.
\<close>

definition shown_title :: "string option \<Rightarrow> string" where
  "shown_title t = or_str (strip (or_default t ''figure'')) ''figure''"

definition artifact_keys :: "artifact list \<Rightarrow> (pyval \<times> pyval) list" where
  "artifact_keys as = List.map_filter artifact_key as"

definition turn_inv :: "turn \<Rightarrow> bool" where
  "turn_inv st \<longleftrightarrow> distinct (artifact_keys (artifacts st))
      \<and> set (artifact_keys (artifacts st)) = (\<lambda>(n, d). (PyStr n, PyStr d)) ` seen_artifacts st"

definition grows :: "turn \<Rightarrow> turn \<Rightarrow> bool" where
  "grows st st' \<longleftrightarrow> prefix (artifacts st) (artifacts st') \<and> (turn_inv st \<longrightarrow> turn_inv st')"

definition event_texts :: "event \<Rightarrow> string list" where
  "event_texts ev =
     (case event_content ev of
        None \<Rightarrow> []
      | Some c \<Rightarrow> (case parts c of None \<Rightarrow> [] | Some ps \<Rightarrow> List.map_filter part_text ps))"

definition text_fragments :: "event list \<Rightarrow> string list" where
  "text_fragments es = concat (map event_texts es)"

definition stub_runner :: "event_stream \<Rightarrow> nat runner" where
  "stub_runner stream =
     \<lparr>create_session = (\<lambda>n u. (Inr \<lparr>session_user_id = u, session_id = replicate n CHR ''s''\<rparr>, Suc n)),
      run_async = (\<lambda>s m. stream),
      artifact_service = None\<rparr>"

definition new_service :: "nat service" where
  "new_service = \<lparr>runner_state = 0, sessions = Map.empty\<rparr>"

definition text_event :: "string \<Rightarrow> event" where
  "text_event t =
     \<lparr>event_content = Some \<lparr>parts = Some [\<lparr>part_text = Some t, part_function_call = None,
         part_function_response = None, part_code_execution_result = None,
         part_inline_data = None\<rparr>]\<rparr>,
      event_actions = None\<rparr>"

definition inline_event :: "blob \<Rightarrow> event" where
  "inline_event b =
     \<lparr>event_content = Some \<lparr>parts = Some [\<lparr>part_text = None, part_function_call = None,
         part_function_response = None, part_code_execution_result = None,
         part_inline_data = Some b\<rparr>]\<rparr>,
      event_actions = None\<rparr>"



definition underscore_char :: "char \<Rightarrow> char" where
  "underscore_char c = (if name_char c then c else CHR ''_'')"

fun squeeze_unsafe :: "string \<Rightarrow> string" where
  "squeeze_unsafe (a # b # r) =
     (if \<not> name_char a \<and> \<not> name_char b then squeeze_unsafe (a # r)
      else a # squeeze_unsafe (b # r))"
| "squeeze_unsafe s = s"


fun first_occurrences :: "artifact list \<Rightarrow> artifact list" where
  "first_occurrences [] = []"
| "first_occurrences (a # as) =
     a # first_occurrences (filter (\<lambda>b. artifact_key b \<noteq> artifact_key a) as)"












text \<open>
  The scan of a text, segment by segment: a character that starts no match, or a match
  of the pattern. \<open>source_text\<close> is what a segment is in the input, \<open>output_text\<close> what the
  specification lets it become: a malformed match stays as it is, another match becomes
  its reference.
\<close>

datatype segment = Plain char | Marker figure_match

function segments :: "string \<Rightarrow> segment list" where
  "segments [] = []"
| "segments (c # cs) =
     (case match_at (c # cs) of
        None \<Rightarrow> Plain c # segments cs
      | Some (m, rest) \<Rightarrow> Marker m # segments rest)"
  by pat_completeness auto
termination
proof (relation "measure length")
  show "wf (measure length)" by simp
next
  fix c cs
  show "(cs, c # cs) \<in> measure length" by simp
next
  fix c :: char and cs x2 x y
  assume "match_at (c # cs) = Some x2" and "(x, y) = x2"
  then show "(y, c # cs) \<in> measure length"
    using match_at_shorter [of "c # cs" x y] by simp
qed

definition source_text :: "segment \<Rightarrow> string" where
  "source_text g = (case g of Plain c \<Rightarrow> [c] | Marker m \<Rightarrow> group0 m)"

definition output_text :: "segment \<Rightarrow> string" where
  "output_text g =
     (case g of
        Plain c \<Rightarrow> [c]
      | Marker m \<Rightarrow>
          if malformed m then group0 m
          else ''[See figure: '' @ or_str (strip (or_default (title m) ''figure'')) ''figure'' @ '']'')"

definition markers :: "segment list \<Rightarrow> figure_match list" where
  "markers gs = List.map_filter (\<lambda>g. case g of Plain c \<Rightarrow> None | Marker m \<Rightarrow> Some m) gs"

section \<open>Properties of the figure extractor\<close>

lemma extract_is_pattern_sub: "extract_embedded_figures text = pattern_sub text"
  by (simp add: extract_embedded_figures_def)

lemma isspace_not_d: "\<not> isspace CHR ''d''"
  by (simp add: isspace_def code_def)

lemma mime_char_not_semicolon: "\<not> mime_char CHR '';''"
  by (simp add: mime_char_def alnum_def isupper_ascii_def islower_ascii_def isdigit_ascii_def code_def)

lemma mime_char_not_comma: "\<not> mime_char CHR '',''"
  by (simp add: mime_char_def alnum_def isupper_ascii_def islower_ascii_def isdigit_ascii_def code_def)

lemma takeWhile_stop:
  "\<forall>x\<in>set xs. P x \<Longrightarrow> ys = [] \<or> \<not> P (hd ys) \<Longrightarrow> takeWhile P (xs @ ys) = xs"
  by (cases ys) (auto simp: takeWhile_append2)

lemma dropWhile_stop:
  "\<forall>x\<in>set xs. P x \<Longrightarrow> ys = [] \<or> \<not> P (hd ys) \<Longrightarrow> dropWhile P (xs @ ys) = ys"
  by (cases ys) (auto simp: dropWhile_append2)

lemma match_title_bracket:
  assumes "t \<noteq> []" "CHR '']'' \<notin> set t"
  shows "match_title (CHR ''['' # t @ CHR '']'' # r) = Some (Some t, r)"
proof -
  have 1: "takeWhile (\<lambda>x. x \<noteq> CHR '']'') (t @ CHR '']'' # r) = t"
    using assms(2) by (intro takeWhile_stop) auto
  have 2: "dropWhile (\<lambda>x. x \<noteq> CHR '']'') (t @ CHR '']'' # r) = CHR '']'' # r"
    using assms(2) by (intro dropWhile_stop) auto
  show ?thesis using assms(1) by (simp add: match_title_def 1 2)
qed

lemma take_minus_suffix: "take (length (g @ r) - length r) (g @ r) = g"
  by simp

lemma match_at_steps:
  assumes "s = ''FIGURE'' @ s1" "match_title s1 = Some (t, '':'' @ s3)"
    "dropWhile isspace s3 = ''data:image/'' @ s5"
    "takeWhile mime_char s5 = sub" "sub \<noteq> []"
    "dropWhile mime_char s5 = '';base64,'' @ s7"
    "takeWhile payload_char s7 = p" "p \<noteq> []" "dropWhile payload_char s7 = rest"
    "s = g @ rest"
  shows "match_at s = Some (\<lparr>group0 = g, title = t,
                             data = ''data:image/'' @ sub @ '';base64,'' @ p\<rparr>, rest)"
proof -
  have s1: "strip_prefix ''FIGURE'' s = Some s1"
    using assms(1) by (simp only: strip_prefix_Some)
  have s3: "strip_prefix '':'' ('':'' @ s3) = Some s3"
    by (simp only: strip_prefix_Some)
  have s5: "strip_prefix ''data:image/'' (dropWhile isspace s3) = Some s5"
    using assms(3) by (simp only: strip_prefix_Some)
  have s7: "strip_prefix '';base64,'' (dropWhile mime_char s5) = Some s7"
    using assms(6) by (simp only: strip_prefix_Some)
  have g: "take (length s - length rest) s = g"
    unfolding assms(10) by (rule take_minus_suffix)
  show ?thesis
    unfolding match_at_def s1 option.case assms(2) prod.case s3 s5 s7 assms(4) assms(7)
      assms(9) g
    using assms(5) assms(8) by simp
qed

lemma match_at_titled:
  assumes t: "t \<noteq> []" "CHR '']'' \<notin> set t"
    and ws: "\<forall>c\<in>set ws. isspace c"
    and sub: "sub \<noteq> []" "\<forall>c\<in>set sub. mime_char c"
    and p: "p \<noteq> []" "\<forall>c\<in>set p. payload_char c"
    and post: "post = [] \<or> \<not> payload_char (hd post)"
  shows "match_at (''FIGURE['' @ t @ '']:'' @ ws @ ''data:image/'' @ sub @ '';base64,'' @ p @ post)
         = Some (\<lparr>group0 = ''FIGURE['' @ t @ '']:'' @ ws @ ''data:image/'' @ sub @ '';base64,'' @ p,
                  title = Some t,
                  data = ''data:image/'' @ sub @ '';base64,'' @ p\<rparr>, post)"
proof (rule match_at_steps)
  let ?s5 = "sub @ '';base64,'' @ p @ post"
  let ?s3 = "ws @ ''data:image/'' @ ?s5"
  show "''FIGURE['' @ t @ '']:'' @ ws @ ''data:image/'' @ sub @ '';base64,'' @ p @ post
        = ''FIGURE'' @ (CHR ''['' # t @ CHR '']'' # '':'' @ ?s3)" by simp
  show "match_title (CHR ''['' # t @ CHR '']'' # '':'' @ ?s3) = Some (Some t, '':'' @ ?s3)"
    by (rule match_title_bracket [OF t])
  show "dropWhile isspace ?s3 = ''data:image/'' @ ?s5"
    using ws isspace_not_d by (intro dropWhile_stop) auto
  show "takeWhile mime_char ?s5 = sub"
    using sub(2) mime_char_not_semicolon by (intro takeWhile_stop) auto
  show "dropWhile mime_char ?s5 = '';base64,'' @ p @ post"
    using sub(2) mime_char_not_semicolon by (intro dropWhile_stop) auto
  show "takeWhile payload_char (p @ post) = p"
    using p(2) post by (intro takeWhile_stop) auto
  show "dropWhile payload_char (p @ post) = post"
    using p(2) post by (intro dropWhile_stop) auto
  show "sub \<noteq> []" by (rule sub(1))
  show "p \<noteq> []" by (rule p(1))
  show "''FIGURE['' @ t @ '']:'' @ ws @ ''data:image/'' @ sub @ '';base64,'' @ p @ post
        = (''FIGURE['' @ t @ '']:'' @ ws @ ''data:image/'' @ sub @ '';base64,'' @ p) @ post"
    by simp
qed


lemma split_once_at:
  assumes "sep \<notin> set xs"
  shows "split_once sep (xs @ sep # ys) = [xs, ys]"
proof -
  have 1: "takeWhile (\<lambda>c. c \<noteq> sep) (xs @ sep # ys) = xs"
    using assms by (intro takeWhile_stop) auto
  have 2: "dropWhile (\<lambda>c. c \<noteq> sep) (xs @ sep # ys) = sep # ys"
    using assms by (intro dropWhile_stop) auto
  show ?thesis by (simp add: split_once_def 1 2)
qed

lemma split_once_data:
  assumes "\<forall>c\<in>set sub. mime_char c"
  shows "split_once CHR '','' (''data:image/'' @ sub @ '';base64,'' @ p)
         = [''data:image/'' @ sub @ '';base64'', p]"
proof -
  have "CHR '','' \<notin> set (''data:image/'' @ sub @ '';base64'')"
    using assms mime_char_not_comma by auto
  from split_once_at [OF this, of p] show ?thesis by simp
qed

lemma mime_of_prefix:
  assumes "\<forall>c\<in>set sub. mime_char c"
  shows "hd (split_once CHR '';'' (drop (length ''data:'') (''data:image/'' @ sub @ '';base64'')))
         = ''image/'' @ sub"
proof -
  have "CHR '';'' \<notin> set (''image/'' @ sub)"
    using assms mime_char_not_semicolon by auto
  from split_once_at [OF this, of "''base64''"] show ?thesis by simp
qed

lemma sub_unsafe_figure: "sub_unsafe ''figure'' = ''figure''"
  by code_simp

lemma or_str_strip_safe:
  "or_str (strip x) (sub_unsafe (or_str (strip x) ''figure'')) = or_str (strip x) ''figure''"
  by (cases "strip x = []") (simp_all add: or_str_def sub_unsafe_figure del: sub_unsafe.simps)

lemma figure_replace_decoded:
  assumes sub: "\<forall>c\<in>set sub. mime_char c"
    and ok: "b64decode_validate (join_split p) = Decoded"
  shows "figure_replace \<lparr>group0 = g, title = t, data = ''data:image/'' @ sub @ '';base64,'' @ p\<rparr>
         = Inr (''[See figure: '' @ shown_title t @ '']'',
                Some [(''name'', PyStr (if \<not> endswith (lower (sub_unsafe (shown_title t))) ''.png''
                                        then sub_unsafe (shown_title t) @ ''.png''
                                        else sub_unsafe (shown_title t))),
                      (''mime_type'', PyStr (''image/'' @ sub)),
                      (''data'', PyStr (join_split p)),
                      (''display_name'', PyStr (shown_title t))])"
proof -
  have m: "or_str (''image/'' @ sub) ''image/png'' = ''image/'' @ sub"
    by (simp add: or_str_def)
  show ?thesis
    unfolding figure_replace_def Let_def figure_match.simps split_once_data [OF sub]
      list.case mime_of_prefix [OF sub] m ok b64_outcome.case or_str_strip_safe
    by (simp add: shown_title_def)
qed

lemma pattern_sub_match:
  assumes "match_at s = Some (m, rest)" "figure_replace m = Inr (repl, a)"
    "pattern_sub rest = Inr (out, arts)"
  shows "pattern_sub s = Inr (repl @ out, (case a of None \<Rightarrow> [] | Some x \<Rightarrow> [x]) @ arts)"
proof (cases s)
  case Nil
  with assms(1) show ?thesis by (simp add: match_at_def)
next
  case (Cons c cs)
  with assms show ?thesis by simp
qed

lemma pattern_sub_prefix:
  assumes "\<forall>k<length pre. match_at (drop k (pre @ s)) = None"
    "pattern_sub s = Inr (out, arts)"
  shows "pattern_sub (pre @ s) = Inr (pre @ out, arts)"
  using assms
proof (induction pre)
  case Nil
  then show ?case by simp
next
  case (Cons c pre)
  have 0: "match_at (c # pre @ s) = None"
    using Cons.prems(1) [rule_format, of 0] by simp
  have "\<forall>k<length pre. match_at (drop k (pre @ s)) = None"
  proof (intro allI impI)
    fix k assume "k < length pre"
    then show "match_at (drop k (pre @ s)) = None"
      using Cons.prems(1) [rule_format, of "Suc k"] by simp
  qed
  from Cons.IH [OF this Cons.prems(2)] 0 show ?case by simp
qed

lemma match_title_suffix: "match_title s = Some (t, r) \<Longrightarrow> suffix r s"
proof (cases s)
  case Nil
  assume "match_title s = Some (t, r)"
  with Nil show ?thesis by (simp add: match_title_def)
next
  case (Cons c cs)
  assume a: "match_title s = Some (t, r)"
  have "suffix (tl (dropWhile (\<lambda>x. x \<noteq> CHR '']'') cs)) (c # cs)"
    by (meson suffix_ConsI suffix_dropWhile suffix_order.trans suffix_tl)
  with a Cons show ?thesis
    by (auto simp: match_title_def Let_def split: if_splits)
qed

lemma match_at_shape:
  assumes "match_at s = Some (m, rest)"
  shows "\<exists>sub p. data m = ''data:image/'' @ sub @ '';base64,'' @ p
            \<and> (\<forall>c\<in>set sub. mime_char c) \<and> (\<forall>c\<in>set p. payload_char c)
            \<and> s = group0 m @ rest"
proof -
  from assms obtain s1 t s2 s3 s5 s7 where
    1: "s = ''FIGURE'' @ s1" and 2: "match_title s1 = Some (t, s2)" and
    3: "s2 = '':'' @ s3" and 5: "dropWhile isspace s3 = ''data:image/'' @ s5" and
    7: "dropWhile mime_char s5 = '';base64,'' @ s7" and r: "rest = dropWhile payload_char s7"
    and d: "data m = ''data:image/'' @ takeWhile mime_char s5 @ '';base64,'' @ takeWhile payload_char s7"
    and g: "group0 m = take (length s - length rest) s"
    unfolding match_at_def
    by (auto simp: strip_prefix_Some split: option.splits if_splits prod.splits)
  have "suffix rest s7" using r by (simp add: suffix_dropWhile)
  also have "suffix s7 (dropWhile mime_char s5)" using 7 by (simp add: suffix_def)
  also have "suffix \<dots> s5" by (rule suffix_dropWhile)
  also have "suffix s5 (dropWhile isspace s3)" using 5 by (simp add: suffix_def)
  also have "suffix \<dots> s3" by (rule suffix_dropWhile)
  also have "suffix s3 s2" using 3 by (simp add: suffix_def)
  also have "suffix s2 s1" using 2 by (rule match_title_suffix)
  also have "suffix s1 s" using 1 by (simp add: suffix_def)
  finally obtain pre where "s = pre @ rest" by (auto simp: suffix_def)
  then have "s = group0 m @ rest" using g by simp
  moreover have "\<forall>c\<in>set (takeWhile mime_char s5). mime_char c"
    by (auto dest: set_takeWhileD)
  moreover have "\<forall>c\<in>set (takeWhile payload_char s7). payload_char c"
    by (auto dest: set_takeWhileD)
  ultimately show ?thesis using d by blast
qed

lemma payload_char_ascii: "payload_char c \<Longrightarrow> \<not> isspace c \<Longrightarrow> code c < 128"
  by (auto simp: payload_char_def alnum_def isupper_ascii_def islower_ascii_def
        isdigit_ascii_def code_def)

lemma payload_of_data:
  assumes "\<forall>c\<in>set sub. mime_char c"
  shows "payload \<lparr>group0 = g, title = t, data = ''data:image/'' @ sub @ '';base64,'' @ p\<rparr> = p"
proof -
  have "CHR '','' \<notin> set (''data:image/'' @ sub @ '';base64'')"
    using assms mime_char_not_comma by auto
  then have "dropWhile (\<lambda>c. c \<noteq> CHR '','') ((''data:image/'' @ sub @ '';base64'') @ CHR '','' # p)
             = CHR '','' # p"
    by (intro dropWhile_stop) auto
  then show ?thesis by (simp add: payload_def)
qed

lemma figure_replace_binascii:
  assumes sub: "\<forall>c\<in>set sub. mime_char c"
    and bad: "b64decode_validate (join_split p) = BinasciiError"
  shows "figure_replace \<lparr>group0 = g, title = t, data = ''data:image/'' @ sub @ '';base64,'' @ p\<rparr>
         = Inr (g, None)"
  unfolding figure_replace_def Let_def figure_match.simps split_once_data [OF sub]
    list.case bad b64_outcome.case
  by simp

lemma join_split_payload_ascii:
  assumes "\<forall>c\<in>set p. payload_char c"
  shows "b64decode_validate (join_split p) \<noteq> NonAscii"
proof -
  have "\<forall>c\<in>set (join_split p). code c < 128"
    using assms by (auto simp: join_split_def intro: payload_char_ascii)
  then have "\<not> (\<exists>c\<in>set (join_split p). 128 \<le> code c)" by (auto simp: not_le)
  then show ?thesis by (simp add: b64decode_validate_def)
qed

lemma figure_replace_of_match:
  assumes "match_at s = Some (m, rest)"
  shows "(malformed m \<longrightarrow> figure_replace m = Inr (group0 m, None))
       \<and> (\<not> malformed m \<longrightarrow> (\<exists>r a. figure_replace m = Inr (r, Some a)))"
proof -
  from match_at_shape [OF assms] obtain sub p where
    d: "data m = ''data:image/'' @ sub @ '';base64,'' @ p"
    and sub: "\<forall>c\<in>set sub. mime_char c" and p: "\<forall>c\<in>set p. payload_char c"
    by blast
  have m: "m = \<lparr>group0 = group0 m, title = title m, data = ''data:image/'' @ sub @ '';base64,'' @ p\<rparr>"
    using d by simp
  have pl: "payload m = p"
    by (subst m) (rule payload_of_data [OF sub])
  show ?thesis
  proof (cases "b64decode_validate (join_split p)")
    case Decoded
    with figure_replace_decoded [OF sub Decoded, of "group0 m" "title m"] m pl
    show ?thesis by (simp add: malformed_def)
  next
    case BinasciiError
    with figure_replace_binascii [OF sub BinasciiError, of "group0 m" "title m"] m pl
    show ?thesis by (simp add: malformed_def)
  next
    case NonAscii
    with join_split_payload_ascii [OF p] show ?thesis by simp
  qed
qed

lemma pattern_sub_total:
  "\<exists>out arts. pattern_sub s = Inr (out, arts)
      \<and> length arts = length (filter (\<lambda>m. \<not> malformed m) (figure_matches s))"
proof (induction s rule: pattern_sub.induct)
  case 1
  show ?case by simp
next
  case (2 c cs)
  show ?case
  proof (cases "match_at (c # cs)")
    case None
    with 2(1) show ?thesis by auto
  next
    case (Some x)
    obtain m rest where x: "x = (m, rest)" by (cases x)
    note M = Some [unfolded x]
    from figure_replace_of_match [OF M] obtain r a where
      fr: "figure_replace m = Inr (r, a)" and am: "malformed m \<longleftrightarrow> a = None"
      by (cases "malformed m") auto
    from 2(2) [OF M refl fr refl] obtain out arts where
      ih: "pattern_sub rest = Inr (out, arts)"
      "length arts = length (filter (\<lambda>m. \<not> malformed m) (figure_matches rest))"
      by blast
    show ?thesis using M fr ih am by (cases a) auto
  qed
qed

lemma pattern_sub_malformed:
  "\<forall>m\<in>set (figure_matches s). malformed m \<Longrightarrow> pattern_sub s = Inr (s, [])"
proof (induction s rule: pattern_sub.induct)
  case 1
  show ?case by simp
next
  case (2 c cs)
  show ?case
  proof (cases "match_at (c # cs)")
    case None
    with 2(1) 2(3) show ?thesis by auto
  next
    case (Some x)
    obtain m rest where x: "x = (m, rest)" by (cases x)
    note M = Some [unfolded x]
    have mm: "malformed m" and rest: "\<forall>m\<in>set (figure_matches rest). malformed m"
      using 2(3) M by auto
    from figure_replace_of_match [OF M] mm have fr: "figure_replace m = Inr (group0 m, None)"
      by simp
    from 2(2) [OF M refl fr refl rest] have ih: "pattern_sub rest = Inr (rest, [])" .
    from match_at_shape [OF M] have eq: "group0 m @ rest = c # cs" by metis
    from pattern_sub_match [OF M fr ih] show ?thesis by (simp add: eq)
  qed
qed

section \<open>Claims about the figure extractor\<close>

text \<open>
  Claim C5, as amended. A text in which the pattern matches nowhere is returned
  unchanged, with an empty artifact list.
\<close>

theorem extract_no_marker_unchanged:
  assumes "figure_matches text = []"
  shows "extract_embedded_figures text = Inr (text, [])"
proof -
  have "\<forall>m\<in>set (figure_matches text). malformed m" using assms by simp
  from pattern_sub_malformed [OF this] show ?thesis by (simp add: extract_is_pattern_sub)
qed

theorem extract_no_marker_unchanged_witness:
  "figure_matches ''Here: [See figure: sales]'' = []
   \<and> extract_embedded_figures ''Here: [See figure: sales]'' = Inr (''Here: [See figure: sales]'', [])"
proof -
  have h: "figure_matches ''Here: [See figure: sales]'' = []" by code_simp
  from extract_no_marker_unchanged [OF h] h show ?thesis by simp
qed

text \<open>
  The extractor's own output is not always such a text: a replacement can complete a
  new marker with the text around it, and a second run then changes the text and emits
  another artifact.
\<close>

theorem extract_not_idempotent_counterexample:
  "extract_embedded_figures
     ''FIGUREFIGURE[x]: data:image/png;base64,QUJD: data:image/png;base64,QUJD''
   = Inr (''FIGURE[See figure: x]: data:image/png;base64,QUJD'',
          [[(''name'', PyStr ''x.png''), (''mime_type'', PyStr ''image/png''),
            (''data'', PyStr ''QUJD''), (''display_name'', PyStr ''x'')]])
   \<and> extract_embedded_figures ''FIGURE[See figure: x]: data:image/png;base64,QUJD''
   = Inr (''[See figure: See figure: x]'',
          [[(''name'', PyStr ''See_figure_x.png''), (''mime_type'', PyStr ''image/png''),
            (''data'', PyStr ''QUJD''), (''display_name'', PyStr ''See figure: x'')]])"
  by code_simp

text \<open>
  Claim C3, as amended. Take a marker \<open>FIGURE[t]:\<close>, whitespace,
  \<open>data:image/sub;base64,p\<close> with a non-empty title without a closing bracket and a
  non-empty subtype and payload from the classes of the pattern, whose payload is
  accepted by the decoder once its whitespace is removed. If no match starts before the
  marker, and the text after the payload is empty or starts with a character outside the
  payload class \<open>[A-Za-z0-9+/=\s]\<close>, then the extractor emits exactly one artifact for the
  marker, before those of the rest of the text; its MIME type is \<open>image/sub\<close>, its data
  is the payload without whitespace, and the marker is replaced by \<open>[See figure: T]\<close>
  where \<open>T\<close> is the stripped title (\<open>figure\<close> for a blank one).
\<close>

theorem figure_marker_extracted:
  assumes t: "t \<noteq> []" "CHR '']'' \<notin> set t"
    and ws: "\<forall>c\<in>set ws. isspace c"
    and sub: "sub \<noteq> []" "\<forall>c\<in>set sub. mime_char c"
    and p: "p \<noteq> []" "\<forall>c\<in>set p. payload_char c"
    and ok: "b64decode_validate (join_split p) = Decoded"
    and post: "post = [] \<or> \<not> payload_char (hd post)"
    and pre: "\<forall>k<length pre. match_at (drop k
        (pre @ ''FIGURE['' @ t @ '']:'' @ ws @ ''data:image/'' @ sub @ '';base64,'' @ p @ post)) = None"
  shows "\<exists>a out arts.
           extract_embedded_figures post = Inr (out, arts)
         \<and> extract_embedded_figures
             (pre @ ''FIGURE['' @ t @ '']:'' @ ws @ ''data:image/'' @ sub @ '';base64,'' @ p @ post)
           = Inr (pre @ ''[See figure: '' @ or_str (strip t) ''figure'' @ '']'' @ out, a # arts)
         \<and> map_of a ''mime_type'' = Some (PyStr (''image/'' @ sub))
         \<and> map_of a ''data'' = Some (PyStr (join_split p))"
proof -
  let ?marker = "''FIGURE['' @ t @ '']:'' @ ws @ ''data:image/'' @ sub @ '';base64,'' @ p"
  let ?m = "\<lparr>group0 = ?marker, title = Some t, data = ''data:image/'' @ sub @ '';base64,'' @ p\<rparr>"
  let ?a = "[(''name'', PyStr (if \<not> endswith (lower (sub_unsafe (shown_title (Some t)))) ''.png''
                                        then sub_unsafe (shown_title (Some t)) @ ''.png''
                                        else sub_unsafe (shown_title (Some t)))),
                      (''mime_type'', PyStr (''image/'' @ sub)),
                      (''data'', PyStr (join_split p)),
                      (''display_name'', PyStr (shown_title (Some t)))]"
  from pattern_sub_total [of post] obtain out arts where
    po: "pattern_sub post = Inr (out, arts)" by blast
  have M: "match_at (?marker @ post) = Some (?m, post)"
    using match_at_titled [OF t ws sub p post] by simp
  have R: "figure_replace ?m = Inr (''[See figure: '' @ shown_title (Some t) @ '']'', Some ?a)"
    by (rule figure_replace_decoded [OF sub(2) ok])
  have S: "pattern_sub (?marker @ post)
           = Inr ((''[See figure: '' @ shown_title (Some t) @ '']'') @ out, ?a # arts)"
    using pattern_sub_match [OF M R po] by simp
  have pre': "\<forall>k<length pre. match_at (drop k (pre @ ?marker @ post)) = None"
    using pre by simp
  have st: "shown_title (Some t) = or_str (strip t) ''figure''"
    using t(1) by (simp add: shown_title_def or_default_def or_str_def)
  have "pattern_sub (pre @ ?marker @ post)
        = Inr (pre @ (''[See figure: '' @ shown_title (Some t) @ '']'') @ out, ?a # arts)"
    by (rule pattern_sub_prefix [OF pre' S])
  then have "extract_embedded_figures (pre @ ?marker @ post)
        = Inr (pre @ ''[See figure: '' @ or_str (strip t) ''figure'' @ '']'' @ out, ?a # arts)"
    by (simp add: extract_is_pattern_sub st)
  moreover have "extract_embedded_figures post = Inr (out, arts)"
    using po by (simp add: extract_is_pattern_sub)
  moreover have "map_of ?a ''mime_type'' = Some (PyStr (''image/'' @ sub))" by simp
  moreover have "map_of ?a ''data'' = Some (PyStr (join_split p))" by simp
  ultimately show ?thesis by (intro exI conjI) (assumption | simp)+
qed


theorem figure_marker_extracted_witness:
  "list_all isspace '' '' \<and> list_all mime_char ''png'' \<and> list_all payload_char ''QUJD''
   \<and> b64decode_validate (join_split ''QUJD'') = Decoded
   \<and> extract_embedded_figures ''Here: FIGURE[sales]: data:image/png;base64,QUJD''
     = Inr (''Here: [See figure: sales]'',
            [[(''name'', PyStr ''sales.png''), (''mime_type'', PyStr ''image/png''),
              (''data'', PyStr ''QUJD''), (''display_name'', PyStr ''sales'')]])
   \<and> (\<exists>a out arts.
           extract_embedded_figures [] = Inr (out, arts)
         \<and> extract_embedded_figures ''Here: FIGURE[sales]: data:image/png;base64,QUJD''
           = Inr (''Here: [See figure: sales]'' @ out, a # arts)
         \<and> map_of a ''mime_type'' = Some (PyStr ''image/png'')
         \<and> map_of a ''data'' = Some (PyStr ''QUJD''))"
proof -
  have t: "''sales'' \<noteq> []" "CHR '']'' \<notin> set ''sales''" by simp_all
  have ws: "\<forall>c\<in>set '' ''. isspace c" by code_simp
  have sub: "''png'' \<noteq> []" "\<forall>c\<in>set ''png''. mime_char c" by simp code_simp
  have p: "''QUJD'' \<noteq> []" "\<forall>c\<in>set ''QUJD''. payload_char c" by simp code_simp
  have ok: "b64decode_validate (join_split ''QUJD'') = Decoded" by code_simp
  have post: "([]::string) = [] \<or> \<not> payload_char (hd [])" by simp
  have pre: "\<forall>k<length ''Here: ''. match_at (drop k
        (''Here: '' @ ''FIGURE['' @ ''sales'' @ '']:'' @ '' '' @ ''data:image/'' @ ''png''
           @ '';base64,'' @ ''QUJD'' @ [])) = None"
  proof (intro allI impI)
    fix k :: nat assume "k < length ''Here: ''"
    then have "k = 0 \<or> k = 1 \<or> k = 2 \<or> k = 3 \<or> k = 4 \<or> k = 5" by auto
    then show "match_at (drop k
        (''Here: '' @ ''FIGURE['' @ ''sales'' @ '']:'' @ '' '' @ ''data:image/'' @ ''png''
           @ '';base64,'' @ ''QUJD'' @ [])) = None"
      by (elim disjE) (simp_all add: match_at_def)
  qed
  have e: "extract_embedded_figures ''Here: FIGURE[sales]: data:image/png;base64,QUJD''
     = Inr (''Here: [See figure: sales]'',
            [[(''name'', PyStr ''sales.png''), (''mime_type'', PyStr ''image/png''),
              (''data'', PyStr ''QUJD''), (''display_name'', PyStr ''sales'')]])"
    by code_simp
  have s: "or_str (strip ''sales'') ''figure'' = ''sales''" by code_simp
  have j: "join_split ''QUJD'' = ''QUJD''" by code_simp
  have l: "list_all isspace '' ''" "list_all mime_char ''png''" "list_all payload_char ''QUJD''"
    by code_simp+
  from figure_marker_extracted [OF t ws sub p ok post pre]
  have "\<exists>a out arts.
           extract_embedded_figures [] = Inr (out, arts)
         \<and> extract_embedded_figures ''Here: FIGURE[sales]: data:image/png;base64,QUJD''
           = Inr (''Here: [See figure: sales]'' @ out, a # arts)
         \<and> map_of a ''mime_type'' = Some (PyStr ''image/png'')
         \<and> map_of a ''data'' = Some (PyStr ''QUJD'')"
    unfolding s j by simp
  with l ok e show ?thesis by blast
qed

text \<open>
  Without the condition on the text after the payload the claim fails: the payload
  class contains letters and whitespace, so the match runs on into the following words,
  the decoder refuses the longer payload, and nothing is extracted. And the reference
  shows the stripped title, not the title as it stands between the brackets.
\<close>

theorem figure_marker_trailing_text_counterexample:
  "b64decode_validate ''QUJD'' = Decoded
   \<and> extract_embedded_figures ''FIGURE[t]: data:image/png;base64,QUJD ok''
     = Inr (''FIGURE[t]: data:image/png;base64,QUJD ok'', [])
   \<and> extract_embedded_figures ''FIGURE[ t ]: data:image/png;base64,QUJD''
     = Inr (''[See figure: t]'',
            [[(''name'', PyStr ''t.png''), (''mime_type'', PyStr ''image/png''),
              (''data'', PyStr ''QUJD''), (''display_name'', PyStr ''t'')]])"
  by code_simp

section \<open>The artifact name of a figure\<close>

text \<open>
  The scan of \<open>re.sub\<close> agrees with the reading in two phases: shorten the runs, then
  replace character by character.
\<close>

lemma sub_unsafe_squeeze: "sub_unsafe s = map underscore_char (squeeze_unsafe s)"
  by (induction s rule: squeeze_unsafe.induct) (auto simp: underscore_char_def)

lemma figure_replace_emits:
  assumes "figure_replace m = Inr (r, Some a)"
  shows "r = ''[See figure: '' @ shown_title (title m) @ '']''
       \<and> map_of a ''name'' =
           Some (PyStr (if endswith (lower (sub_unsafe (shown_title (title m)))) ''.png''
                        then sub_unsafe (shown_title (title m))
                        else sub_unsafe (shown_title (title m)) @ ''.png''))
       \<and> map_of a ''display_name'' = Some (PyStr (shown_title (title m)))"
  using assms
  unfolding figure_replace_def Let_def or_str_strip_safe
  by (auto simp: shown_title_def split: list.splits b64_outcome.splits)

text \<open>
  Claim C7, as amended. Whenever the callback replaces a marker and emits an artifact,
  the replacement is the reference \<open>[See figure: T]\<close>, where \<open>T\<close> is the title stripped of
  surrounding whitespace, or \<open>figure\<close> when the title is absent or blank; the artifact
  name is \<open>T\<close> with each maximal run of characters outside \<open>[A-Za-z0-9._-]\<close> replaced by
  one underscore, followed by \<open>.png\<close> unless it already ends with \<open>.png\<close> in any
  letter case.
\<close>

theorem figure_name_derivation:
  assumes "figure_replace m = Inr (r, Some a)"
  shows "r = ''[See figure: '' @ or_str (strip (or_default (title m) ''figure'')) ''figure'' @ '']''
       \<and> map_of a ''name'' =
           Some (PyStr
             (let stem = map underscore_char
                           (squeeze_unsafe (or_str (strip (or_default (title m) ''figure'')) ''figure''))
              in if endswith (lower stem) ''.png'' then stem else stem @ ''.png''))"
  using figure_replace_emits [OF assms]
  by (simp add: shown_title_def sub_unsafe_squeeze Let_def)

theorem figure_name_derivation_witness:
  "figure_replace \<lparr>group0 = ''FIGURE[ a!!b ]: data:image/png;base64,QUJD'', title = Some '' a!!b '',
                   data = ''data:image/png;base64,QUJD''\<rparr>
   = Inr (''[See figure: a!!b]'',
          Some [(''name'', PyStr ''a_b.png''), (''mime_type'', PyStr ''image/png''),
                (''data'', PyStr ''QUJD''), (''display_name'', PyStr ''a!!b'')])
   \<and> map_of [(''name'', PyStr ''a_b.png''), (''mime_type'', PyStr ''image/png''),
             (''data'', PyStr ''QUJD''), (''display_name'', PyStr ''a!!b'')] ''name''
     = Some (PyStr ''a_b.png'')"
proof -
  let ?m = "\<lparr>group0 = ''FIGURE[ a!!b ]: data:image/png;base64,QUJD'', title = Some '' a!!b '',
                   data = ''data:image/png;base64,QUJD''\<rparr>"
  let ?a = "[(''name'', PyStr ''a_b.png''), (''mime_type'', PyStr ''image/png''),
             (''data'', PyStr ''QUJD''), (''display_name'', PyStr ''a!!b'')]"
  have h: "figure_replace ?m = Inr (''[See figure: a!!b]'', Some ?a)" by code_simp
  have e: "(let stem = map underscore_char
                           (squeeze_unsafe (or_str (strip (or_default (title ?m) ''figure'')) ''figure''))
              in if endswith (lower stem) ''.png'' then stem else stem @ ''.png'') = ''a_b.png''"
    by code_simp
  from figure_name_derivation [OF h] e h show ?thesis by simp
qed

text \<open>
  The claim as it is written replaces character by character: for the title \<open>a!!b\<close>
  that gives \<open>a__b.png\<close>, the extractor gives \<open>a_b.png\<close>.
\<close>

theorem figure_name_per_character_counterexample:
  "extract_embedded_figures ''FIGURE[a!!b]: data:image/png;base64,QUJD''
   = Inr (''[See figure: a!!b]'',
          [[(''name'', PyStr ''a_b.png''), (''mime_type'', PyStr ''image/png''),
            (''data'', PyStr ''QUJD''), (''display_name'', PyStr ''a!!b'')]])
   \<and> map underscore_char ''a!!b'' @ ''.png'' = ''a__b.png''"
  by code_simp

section \<open>The extractor, segment by segment\<close>

lemma markers_simps:
  "markers [] = []" "markers (Plain c # gs) = markers gs" "markers (Marker m # gs) = m # markers gs"
  by (simp_all add: markers_def map_filter_def)

lemma segments_source: "concat (map source_text (segments s)) = s"
proof (induction s rule: segments.induct)
  case 1
  show ?case by simp
next
  case (2 c cs)
  show ?case
  proof (cases "match_at (c # cs)")
    case None
    with 2(1) show ?thesis by (simp add: source_text_def)
  next
    case (Some x)
    obtain m rest where x: "x = (m, rest)" by (cases x)
    note M = Some [unfolded x]
    from match_at_shape [OF M] have eq: "group0 m @ rest = c # cs" by metis
    from 2(2) [OF M refl] M show ?thesis by (simp add: source_text_def eq)
  qed
qed

lemma segments_markers: "markers (segments s) = figure_matches s"
proof (induction s rule: segments.induct)
  case 1
  show ?case by (simp add: markers_simps)
next
  case (2 c cs)
  show ?case
  proof (cases "match_at (c # cs)")
    case None
    with 2(1) show ?thesis by (simp add: markers_simps)
  next
    case (Some x)
    obtain m rest where x: "x = (m, rest)" by (cases x)
    note M = Some [unfolded x]
    from 2(2) [OF M refl] M show ?thesis by (simp add: markers_simps)
  qed
qed

lemma figure_replace_output:
  assumes "match_at s = Some (m, rest)"
  shows "\<exists>a. figure_replace m = Inr (output_text (Marker m), a) \<and> (a = None \<longleftrightarrow> malformed m)"
proof (cases "malformed m")
  case True
  with figure_replace_of_match [OF assms] show ?thesis by (simp add: output_text_def)
next
  case False
  with figure_replace_of_match [OF assms] obtain r a where
    fr: "figure_replace m = Inr (r, Some a)" by blast
  from figure_replace_emits [OF fr] have "r = ''[See figure: '' @ shown_title (title m) @ '']''"
    by simp
  with fr False show ?thesis by (simp add: output_text_def shown_title_def)
qed

lemma pattern_sub_segments:
  "\<exists>arts. pattern_sub s = Inr (concat (map output_text (segments s)), arts)"
proof (induction s rule: pattern_sub.induct)
  case 1
  show ?case by simp
next
  case (2 c cs)
  show ?case
  proof (cases "match_at (c # cs)")
    case None
    with 2(1) show ?thesis by (auto simp: output_text_def)
  next
    case (Some x)
    obtain m rest where x: "x = (m, rest)" by (cases x)
    note M = Some [unfolded x]
    from figure_replace_output [OF M] obtain a where
      fr: "figure_replace m = Inr (output_text (Marker m), a)" by blast
    from 2(2) [OF M refl fr refl] obtain arts where
      ih: "pattern_sub rest = Inr (concat (map output_text (segments rest)), arts)" by blast
    from pattern_sub_match [OF M fr ih] M show ?thesis by simp
  qed
qed

text \<open>
  Claim C4, as amended, a marker being a match of the pattern with its payload taken as
  far as the payload class reaches. The extractor returns on every input text (the model
  has no exception left: the payload that reaches the decoder is ASCII, so the decoder's
  plain \<open>ValueError\<close> cannot occur). The segments make up the input, and the output is
  the input with every match that decodes replaced by its reference: every malformed
  match, wherever it stands, is in the output as it is in the input. One artifact is
  emitted for each match that decodes and none for a malformed one. A text all of whose
  matches are malformed (in particular a text whose data URI does not fit the pattern,
  which has no match) is returned unchanged with an empty artifact list.
\<close>

theorem extract_malformed_untouched:
  "concat (map source_text (segments text)) = text
   \<and> markers (segments text) = figure_matches text
   \<and> (\<exists>arts. extract_embedded_figures text = Inr (concat (map output_text (segments text)), arts)
        \<and> length arts = length (filter (\<lambda>m. \<not> malformed m) (figure_matches text)))
   \<and> ((\<forall>m\<in>set (figure_matches text). malformed m)
        \<longrightarrow> extract_embedded_figures text = Inr (text, []))"
proof -
  from pattern_sub_segments [of "text"] obtain arts where
    1: "pattern_sub text = Inr (concat (map output_text (segments text)), arts)" by blast
  from pattern_sub_total [of "text"] 1
  have 2: "length arts = length (filter (\<lambda>m. \<not> malformed m) (figure_matches text))" by auto
  from 1 2 segments_source [of "text"] segments_markers [of "text"] pattern_sub_malformed [of "text"]
  show ?thesis by (simp add: extract_is_pattern_sub)
qed

theorem extract_malformed_untouched_witness:
  "segments ''FIGURE[a]: data:image/png;base64,QUJD.FIGURE[b]: data:image/png;base64,QUJDE''
   = [Marker \<lparr>group0 = ''FIGURE[a]: data:image/png;base64,QUJD'', title = Some ''a'',
               data = ''data:image/png;base64,QUJD''\<rparr>,
      Plain CHR ''.'',
      Marker \<lparr>group0 = ''FIGURE[b]: data:image/png;base64,QUJDE'', title = Some ''b'',
               data = ''data:image/png;base64,QUJDE''\<rparr>]
   \<and> malformed \<lparr>group0 = ''FIGURE[b]: data:image/png;base64,QUJDE'', title = Some ''b'',
                 data = ''data:image/png;base64,QUJDE''\<rparr>
   \<and> concat (map output_text
         (segments ''FIGURE[a]: data:image/png;base64,QUJD.FIGURE[b]: data:image/png;base64,QUJDE''))
     = ''[See figure: a].FIGURE[b]: data:image/png;base64,QUJDE''
   \<and> (\<exists>arts. extract_embedded_figures
                 ''FIGURE[a]: data:image/png;base64,QUJD.FIGURE[b]: data:image/png;base64,QUJDE''
               = Inr (''[See figure: a].FIGURE[b]: data:image/png;base64,QUJDE'', arts)
             \<and> length arts = 1)
   \<and> list_all malformed (figure_matches ''See FIGURE[a]: data:image/png;base64,QUJDE'')
   \<and> extract_embedded_figures ''See FIGURE[a]: data:image/png;base64,QUJDE''
     = Inr (''See FIGURE[a]: data:image/png;base64,QUJDE'', [])"
proof -
  let ?t = "''FIGURE[a]: data:image/png;base64,QUJD.FIGURE[b]: data:image/png;base64,QUJDE''"
  let ?u = "''See FIGURE[a]: data:image/png;base64,QUJDE''"
  have g: "segments ?t
   = [Marker \<lparr>group0 = ''FIGURE[a]: data:image/png;base64,QUJD'', title = Some ''a'',
               data = ''data:image/png;base64,QUJD''\<rparr>,
      Plain CHR ''.'',
      Marker \<lparr>group0 = ''FIGURE[b]: data:image/png;base64,QUJDE'', title = Some ''b'',
               data = ''data:image/png;base64,QUJDE''\<rparr>]"
    by code_simp
  have m: "malformed \<lparr>group0 = ''FIGURE[b]: data:image/png;base64,QUJDE'', title = Some ''b'',
                 data = ''data:image/png;base64,QUJDE''\<rparr>"
    by code_simp
  have o: "concat (map output_text (segments ?t))
           = ''[See figure: a].FIGURE[b]: data:image/png;base64,QUJDE''"
    by code_simp
  have n: "length (filter (\<lambda>m. \<not> malformed m) (figure_matches ?t)) = 1" by code_simp
  have l: "list_all malformed (figure_matches ?u)" by code_simp
  then have b: "\<forall>m\<in>set (figure_matches ?u). malformed m" by (simp add: list_all_iff)
  from extract_malformed_untouched [of ?t] have
    "\<exists>arts. extract_embedded_figures ?t = Inr (''[See figure: a].FIGURE[b]: data:image/png;base64,QUJDE'', arts)
             \<and> length arts = 1"
    unfolding o n by blast
  moreover from extract_malformed_untouched [of ?u] b
  have "extract_embedded_figures ?u = Inr (?u, [])" by blast
  ultimately show ?thesis using g m o l by blast
qed

text \<open>
  The claim as it is written fails twice. A text with a malformed marker is not
  returned identical when it also holds a marker that decodes. And a payload that the
  decoder refuses, followed by a word, is read together with the word: \<open>QUJDE abc\<close> is
  decoded as \<open>QUJDEabc\<close>, the marker is replaced and an artifact is emitted.
\<close>

theorem malformed_marker_text_changed_counterexample:
  "malformed \<lparr>group0 = ''FIGURE[b]: data:image/png;base64,QUJDE'', title = Some ''b'',
                 data = ''data:image/png;base64,QUJDE''\<rparr>
   \<and> extract_embedded_figures
       ''FIGURE[a]: data:image/png;base64,QUJD.FIGURE[b]: data:image/png;base64,QUJDE''
     = Inr (''[See figure: a].FIGURE[b]: data:image/png;base64,QUJDE'',
            [[(''name'', PyStr ''a.png''), (''mime_type'', PyStr ''image/png''),
              (''data'', PyStr ''QUJD''), (''display_name'', PyStr ''a'')]])
   \<and> b64decode_validate ''QUJDE'' = BinasciiError
   \<and> extract_embedded_figures ''FIGURE[a]: data:image/png;base64,QUJDE abc''
     = Inr (''[See figure: a]'',
            [[(''name'', PyStr ''a.png''), (''mime_type'', PyStr ''image/png''),
              (''data'', PyStr ''QUJDEabc''), (''display_name'', PyStr ''a'')]])"
  by code_simp

section \<open>Properties of the event aggregator\<close>

lemma artifact_keys_append: "artifact_keys (xs @ ys) = artifact_keys xs @ artifact_keys ys"
  by (simp add: artifact_keys_def map_filter_def)

lemma artifact_keys_named:
  "artifact_keys [[(''name'', PyStr n), (''mime_type'', m), (''data'', PyStr d), (''display_name'', v)]]
   = [(PyStr n, PyStr d)]"
  by (simp add: artifact_keys_def map_filter_def artifact_key_def)

lemma artifact_keys_nameless:
  "artifact_keys [[(''mime_type'', m), (''data'', d), (''display_name'', v)]] = []"
  by (simp add: artifact_keys_def map_filter_def artifact_key_def)

lemma fold_err_invariant:
  assumes "fold_err f xs s = Inr s'" "P s"
    and "\<And>x a b. x \<in> set xs \<Longrightarrow> P a \<Longrightarrow> f x a = Inr b \<Longrightarrow> P b"
  shows "P s'"
  using assms
proof (induction xs arbitrary: s)
  case Nil
  then show ?case by simp
next
  case (Cons x xs)
  from Cons.prems(1) obtain s1 where 1: "f x s = Inr s1" and 2: "fold_err f xs s1 = Inr s'"
    by (auto split: sum.splits)
  have 3: "P s1" using Cons.prems(3) [of x s s1] Cons.prems(2) 1 by simp
  have step: "P b" if "y \<in> set xs" "P a" "f y a = Inr b" for y a b
    using Cons.prems(3) [of y a b] that by simp
  show ?case by (rule Cons.IH [OF 2 3 step])
qed

lemma fold_invariant:
  assumes "P s" and "\<And>x a. x \<in> set xs \<Longrightarrow> P a \<Longrightarrow> P (f x a)"
  shows "P (fold f xs s)"
  using assms by (induction xs arbitrary: s) auto

lemma grows_refl: "grows st st"
  by (simp add: grows_def)

lemma grows_trans: "grows a b \<Longrightarrow> grows b c \<Longrightarrow> grows a c"
  by (auto simp: grows_def)

lemma turn_inv_append_named:
  assumes "turn_inv st" "(n, d) \<notin> seen_artifacts st"
  shows "turn_inv (st\<lparr>artifacts := artifacts st @
                 [[(''name'', PyStr n), (''mime_type'', m), (''data'', PyStr d), (''display_name'', v)]],
               seen_artifacts := insert (n, d) (seen_artifacts st)\<rparr>)"
proof -
  have "(PyStr n, PyStr d) \<notin> (\<lambda>(n, d). (PyStr n, PyStr d)) ` seen_artifacts st"
    using assms(2) by auto
  then show ?thesis
    using assms(1)
    by (simp add: turn_inv_def artifact_keys_append artifact_keys_named)
qed

lemma add_artifact_grows: "grows st (add_artifact n m d v st)"
  unfolding grows_def add_artifact_def
  by (simp add: turn_inv_append_named)

lemma add_output_file_grows: "grows st (add_output_file f st)"
  unfolding grows_def add_output_file_def Let_def
  by (simp add: turn_inv_append_named split: option.splits)

lemma turn_inv_append_nameless:
  assumes "turn_inv st"
  shows "turn_inv (st\<lparr>artifacts := artifacts st @
                 [[(''mime_type'', m), (''data'', d), (''display_name'', v)]]\<rparr>)"
  using assms by (simp add: turn_inv_def artifact_keys_append artifact_keys_nameless)

lemma add_inline_raw_grows: "add_inline_raw b st = Inr st' \<Longrightarrow> grows st st'"
  unfolding grows_def add_inline_raw_def
  by (auto simp: turn_inv_append_nameless split: option.splits pydata.splits if_splits)

lemma add_inline_grows: "add_inline b st = Inr st' \<Longrightarrow> grows st st'"
  by (auto simp: add_inline_def add_artifact_grows grows_refl
        split: option.splits sum.splits if_splits)

lemma add_delta_grows: "add_delta load fv st = Inr st' \<Longrightarrow> grows st st'"
  by (auto simp: add_delta_def add_artifact_grows grows_refl
        split: sum.splits option.splits if_splits)

lemma text_only_grows:
  "artifacts st' = artifacts st \<Longrightarrow> seen_artifacts st' = seen_artifacts st \<Longrightarrow> grows st st'"
  by (simp add: grows_def turn_inv_def)

lemma add_text_grows: "grows st (add_text p st)"
  by (rule text_only_grows) (simp_all add: add_text_def split: option.splits)

lemma add_tool_call_grows: "grows st (add_tool_call p st)"
  by (rule text_only_grows) (simp_all add: add_tool_call_def split: option.splits)

lemma add_tool_response_grows: "grows st (add_tool_response p st)"
  by (rule text_only_grows) (simp_all add: add_tool_response_def split: option.splits)

lemma fold_output_files_grows: "grows a (fold add_output_file fs a)"
  by (rule fold_invariant [where P = "grows a"])
     (blast intro: grows_refl grows_trans add_output_file_grows)+

lemma add_output_files_grows: "grows st (add_output_files p st)"
  by (simp add: add_output_files_def grows_refl fold_output_files_grows split: option.splits)

lemma add_inline_data_grows:
  assumes "add_inline_data p st = Inr st'"
  shows "grows st st'"
proof (cases "part_inline_data p")
  case None
  with assms show ?thesis by (simp add: add_inline_data_def grows_refl)
next
  case (Some inline)
  with assms obtain st5 where a: "add_inline_raw inline st = Inr st5"
    and b: "add_inline inline st5 = Inr st'"
    by (auto simp: add_inline_data_def split: sum.splits)
  from add_inline_raw_grows [OF a] add_inline_grows [OF b] show ?thesis
    by (rule grows_trans)
qed

lemma process_part_grows:
  assumes "process_part p st = Inr st'"
  shows "grows st st'"
proof -
  have "grows st (add_output_files p (add_tool_response p (add_tool_call p (add_text p st))))"
    by (rule grows_trans [OF add_text_grows], rule grows_trans [OF add_tool_call_grows],
        rule grows_trans [OF add_tool_response_grows], rule add_output_files_grows)
  then show ?thesis
    using add_inline_data_grows [OF assms [unfolded process_part_def]] by (rule grows_trans)
qed

lemma parts_grow: "fold_err process_part ps a = Inr b \<Longrightarrow> grows a b"
  by (rule fold_err_invariant [where P = "grows a"])
     (blast intro: grows_refl grows_trans process_part_grows)+

lemma deltas_grow: "fold_err (add_delta load) ds a = Inr b \<Longrightarrow> grows a b"
  by (rule fold_err_invariant [where P = "grows a"])
     (blast intro: grows_refl grows_trans add_delta_grows)+

lemma process_event_cases:
  assumes "process_event srv ev st = Inr st'"
  shows "st' = st
       \<or> (\<exists>c ps st1. event_content ev = Some c \<and> parts c = Some ps \<and> ps \<noteq> []
             \<and> fold_err process_part ps st = Inr st1
             \<and> (st' = st1 \<or> (\<exists>load ds. fold_err (add_delta load) ds st1 = Inr st')))"
  using assms
  unfolding process_event_def
  by (simp split: option.splits if_splits sum.splits) blast+

lemma process_event_grows:
  assumes "process_event srv ev st = Inr st'"
  shows "grows st st'"
  using process_event_cases [OF assms]
  by (blast intro: grows_refl grows_trans parts_grow deltas_grow)

lemma events_grow:
  assumes "fold_err (process_event srv) es st = Inr st'"
  shows "grows st st'"
  using assms
  by (rule fold_err_invariant [where P = "grows st"])
     (blast intro: grows_refl grows_trans process_event_grows)+


lemma add_artifact_chunks: "text_chunks (add_artifact n m d v st) = text_chunks st"
  by (simp add: add_artifact_def)

lemma add_output_file_chunks: "text_chunks (add_output_file f st) = text_chunks st"
  by (simp add: add_output_file_def Let_def split: option.splits)

lemma add_output_files_chunks: "text_chunks (add_output_files p st) = text_chunks st"
proof -
  have "text_chunks (fold add_output_file fs a) = text_chunks a" for fs a
    by (induction fs arbitrary: a) (simp_all add: add_output_file_chunks)
  then show ?thesis by (simp add: add_output_files_def split: option.splits)
qed

lemma add_inline_raw_chunks: "add_inline_raw b st = Inr st' \<Longrightarrow> text_chunks st' = text_chunks st"
  by (auto simp: add_inline_raw_def split: option.splits pydata.splits if_splits)

lemma add_inline_chunks: "add_inline b st = Inr st' \<Longrightarrow> text_chunks st' = text_chunks st"
  by (auto simp: add_inline_def add_artifact_chunks split: option.splits sum.splits if_splits)

lemma add_inline_data_chunks:
  "add_inline_data p st = Inr st' \<Longrightarrow> text_chunks st' = text_chunks st"
  by (auto simp: add_inline_data_def split: option.splits sum.splits
           dest!: add_inline_raw_chunks add_inline_chunks)

lemma add_delta_chunks: "add_delta load fv st = Inr st' \<Longrightarrow> text_chunks st' = text_chunks st"
  by (auto simp: add_delta_def add_artifact_chunks split: sum.splits option.splits if_splits)

lemma process_part_chunks:
  assumes "process_part p st = Inr st'"
  shows "concat (text_chunks st') = concat (text_chunks st) @ concat (List.map_filter part_text [p])"
proof -
  have "text_chunks st' = text_chunks (add_text p st)"
    using add_inline_data_chunks [OF assms [unfolded process_part_def]]
    by (simp add: add_output_files_chunks add_tool_response_def add_tool_call_def
          split: option.splits)
  then show ?thesis
    by (simp add: add_text_def map_filter_def split: option.splits)
qed

lemma parts_chunks:
  "fold_err process_part ps st = Inr st' \<Longrightarrow>
   concat (text_chunks st') = concat (text_chunks st) @ concat (List.map_filter part_text ps)"
proof (induction ps arbitrary: st)
  case Nil
  then show ?case by (simp add: map_filter_def)
next
  case (Cons p ps)
  from Cons.prems obtain s1 where 1: "process_part p st = Inr s1"
    and 2: "fold_err process_part ps s1 = Inr st'"
    by (auto split: sum.splits)
  from process_part_chunks [OF 1] Cons.IH [OF 2] show ?case
    by (simp add: map_filter_def)
qed

lemma deltas_chunks:
  "fold_err (add_delta load) ds st = Inr st' \<Longrightarrow> text_chunks st' = text_chunks st"
proof (induction ds arbitrary: st)
  case Nil
  then show ?case by simp
next
  case (Cons d ds)
  from Cons.prems obtain s1 where 1: "add_delta load d st = Inr s1"
    and 2: "fold_err (add_delta load) ds s1 = Inr st'"
    by (auto split: sum.splits)
  from add_delta_chunks [OF 1] Cons.IH [OF 2] show ?case by simp
qed

lemma process_event_run:
  assumes "event_content ev = Some c" "parts c = Some ps" "ps \<noteq> []"
    "process_event srv ev st = Inr st'"
  shows "\<exists>st1. fold_err process_part ps st = Inr st1
           \<and> (st' = st1 \<or> (\<exists>load ds. fold_err (add_delta load) ds st1 = Inr st'))"
  using assms(4) unfolding process_event_def assms(1) assms(2) option.case
  using assms(3) by (simp split: sum.splits option.splits) blast+

lemma process_event_chunks:
  assumes "process_event srv ev st = Inr st'"
  shows "concat (text_chunks st') = concat (text_chunks st) @ concat (event_texts ev)"
proof (cases "event_content ev")
  case None
  with assms show ?thesis by (simp add: process_event_def event_texts_def)
next
  case (Some c)
  show ?thesis
  proof (cases "parts c")
    case None
    with Some assms show ?thesis by (simp add: process_event_def event_texts_def)
  next
    case ps: (Some ps)
    show ?thesis
    proof (cases "ps = []")
      case True
      with Some ps assms show ?thesis
        by (simp add: process_event_def event_texts_def map_filter_def)
    next
      case False
      from process_event_run [OF Some ps False assms] obtain st1 where
        1: "fold_err process_part ps st = Inr st1"
        and 2: "st' = st1 \<or> (\<exists>load ds. fold_err (add_delta load) ds st1 = Inr st')"
        by blast
      from 2 have "text_chunks st' = text_chunks st1" by (auto dest: deltas_chunks)
      with parts_chunks [OF 1] Some ps show ?thesis by (simp add: event_texts_def)
    qed
  qed
qed

lemma events_chunks:
  "fold_err (process_event srv) es st = Inr st' \<Longrightarrow>
   concat (text_chunks st') = concat (text_chunks st) @ concat (text_fragments es)"
proof (induction es arbitrary: st)
  case Nil
  then show ?case by (simp add: text_fragments_def)
next
  case (Cons ev es)
  from Cons.prems obtain s1 where 1: "process_event srv ev st = Inr s1"
    and 2: "fold_err (process_event srv) es s1 = Inr st'"
    by (auto split: sum.splits)
  from process_event_chunks [OF 1] Cons.IH [OF 2] show ?case
    by (simp add: text_fragments_def)
qed

lemma consume_events_Inr:
  "consume_events srv stream = Inr st \<longleftrightarrow>
     fold_err (process_event srv) (fst stream) new_turn = Inr st \<and> snd stream = None"
  by (auto simp: consume_events_def split: sum.splits option.splits)

lemma send_message_Inr:
  assumes "fst (send_message R svc uid msg) = Inr r"
  shows "\<exists>s st. fst (ensure_session R svc uid) = Inr s
           \<and> consume_events (map_option (\<lambda>load. load s) (artifact_service R)) (run_async R s msg) = Inr st
           \<and> collate st = Inr r"
  using assms
  by (auto simp: send_message_def split: prod.splits sum.splits)

lemma collate_Inr:
  "collate st = Inr r \<longleftrightarrow>
     (\<exists>figs. extract_embedded_figures (strip (concat (text_chunks st))) = Inr (result_text r, figs)
        \<and> r = \<lparr>result_text = result_text r, result_tool_calls = tool_calls st,
                 result_tool_responses = tool_responses st,
                 result_artifacts = artifacts st @ figs\<rparr>)"
  by (auto simp: collate_def Let_def split: sum.splits prod.splits)

text \<open>
  Claim C6. When \<open>send_message\<close> returns, its text is what the figure extractor makes of
  the text fragments of the events, concatenated in the order of arrival with nothing
  between them, and stripped of leading and trailing whitespace before the extraction.
\<close>

theorem send_message_text_order:
  assumes "fst (send_message R svc uid msg) = Inr r"
  shows "\<exists>s figs. fst (ensure_session R svc uid) = Inr s
           \<and> extract_embedded_figures (strip (concat (text_fragments (fst (run_async R s msg)))))
             = Inr (result_text r, figs)"
proof -
  from send_message_Inr [OF assms] obtain s st where
    s: "fst (ensure_session R svc uid) = Inr s"
    and c: "consume_events (map_option (\<lambda>load. load s) (artifact_service R)) (run_async R s msg) = Inr st"
    and r: "collate st = Inr r" by blast
  from c have "fold_err (process_event (map_option (\<lambda>load. load s) (artifact_service R)))
                 (fst (run_async R s msg)) new_turn = Inr st"
    by (simp add: consume_events_Inr)
  from events_chunks [OF this]
  have "concat (text_chunks st) = concat (text_fragments (fst (run_async R s msg)))"
    by (simp add: new_turn_def)
  with r s show ?thesis by (auto simp: collate_Inr)
qed

theorem send_message_text_order_witness:
  "fst (send_message (stub_runner ([text_event '' A'', text_event ''B ''], None)) new_service
          ''u1'' ''hi'')
   = Inr \<lparr>result_text = ''AB'', result_tool_calls = [], result_tool_responses = [],
          result_artifacts = []\<rparr>
   \<and> text_fragments [text_event '' A'', text_event ''B ''] = ['' A'', ''B '']
   \<and> (\<exists>s figs. fst (ensure_session (stub_runner ([text_event '' A'', text_event ''B ''], None))
                       new_service ''u1'') = Inr s
           \<and> extract_embedded_figures (strip (concat (text_fragments
                 (fst (run_async (stub_runner ([text_event '' A'', text_event ''B ''], None)) s ''hi'')))))
             = Inr (''AB'', figs))"
proof -
  let ?R = "stub_runner ([text_event '' A'', text_event ''B ''], None)"
  have h: "fst (send_message ?R new_service ''u1'' ''hi'')
   = Inr \<lparr>result_text = ''AB'', result_tool_calls = [], result_tool_responses = [],
          result_artifacts = []\<rparr>"
    by code_simp
  have f: "text_fragments [text_event '' A'', text_event ''B ''] = ['' A'', ''B '']"
    by code_simp
  from send_message_text_order [OF h] h f show ?thesis by simp
qed


lemma grows_prefix: "grows a b \<Longrightarrow> prefix (artifacts a) (artifacts b)"
  by (simp add: grows_def)


lemma first_occurrences_keys:
  "artifact_key ` set (first_occurrences cs) = artifact_key ` set cs"
  by (induction cs rule: first_occurrences.induct) auto


lemma first_occurrences_distinct: "distinct (map artifact_key (first_occurrences cs))"
proof (induction cs rule: first_occurrences.induct)
  case 1
  show ?case by simp
next
  case (2 a as)
  have "artifact_key a \<notin> artifact_key ` set (filter (\<lambda>b. artifact_key b \<noteq> artifact_key a) as)"
    by auto
  with 2 show ?case by (simp add: first_occurrences_keys)
qed


























text \<open>
  Claim C2 at a failing input: one part with an inline payload \<open>QUJD\<close> gives two entries,
  the first from the first inline-data block, with no name, the payload as it came and
  no membership check, the second from the block that normalises and deduplicates.
\<close>

theorem inline_data_two_entries:
  "fst (send_message
          (stub_runner
             ([inline_event \<lparr>blob_data = Some (PyText ''QUJD''), blob_mime_type = Some ''image/png'',
                             blob_display_name = None\<rparr>], None))
          new_service ''u1'' ''plot'')
   = Inr \<lparr>result_text = [], result_tool_calls = [], result_tool_responses = [],
          result_artifacts =
            [[(''mime_type'', PyStr ''image/png''), (''data'', PyStr ''QUJD''),
              (''display_name'', PyNone)],
             [(''name'', PyStr ''artifact''), (''mime_type'', PyStr ''image/png''),
              (''data'', PyStr ''QUJD''), (''display_name'', PyNone)]]\<rparr>"
  by code_simp

lemma prefix_set: "prefix xs ys \<Longrightarrow> x \<in> set xs \<Longrightarrow> x \<in> set ys"
  by (auto simp: prefix_def)

lemma add_inline_raw_text_entry:
  assumes "blob_data inline = Some (PyText d)" "d \<noteq> []" "add_inline_raw inline st = Inr st'"
  shows "[(''mime_type'', PyStr (or_default (blob_mime_type inline) ''application/octet-stream'')),
          (''data'', PyStr d), (''display_name'', opt_val (blob_display_name inline))]
         \<in> set (artifacts st')"
  using assms by (auto simp: add_inline_raw_def truthy_def)

lemma process_part_text_entry:
  assumes "part_inline_data p = Some inline" "blob_data inline = Some (PyText d)" "d \<noteq> []"
    "process_part p st = Inr st'"
  shows "[(''mime_type'', PyStr (or_default (blob_mime_type inline) ''application/octet-stream'')),
          (''data'', PyStr d), (''display_name'', opt_val (blob_display_name inline))]
         \<in> set (artifacts st')"
proof -
  let ?st4 = "add_output_files p (add_tool_response p (add_tool_call p (add_text p st)))"
  from assms(4) assms(1) obtain st5 where
    a: "add_inline_raw inline ?st4 = Inr st5" and b: "add_inline inline st5 = Inr st'"
    by (auto simp: process_part_def add_inline_data_def split: sum.splits)
  from add_inline_raw_text_entry [OF assms(2) assms(3) a]
    grows_prefix [OF add_inline_grows [OF b]]
  show ?thesis by (rule prefix_set [rotated])
qed

lemma parts_text_entry:
  assumes "p \<in> set ps" "part_inline_data p = Some inline" "blob_data inline = Some (PyText d)"
    "d \<noteq> []" "fold_err process_part ps st = Inr st'"
  shows "[(''mime_type'', PyStr (or_default (blob_mime_type inline) ''application/octet-stream'')),
          (''data'', PyStr d), (''display_name'', opt_val (blob_display_name inline))]
         \<in> set (artifacts st')"
  using assms(1) assms(5)
proof (induction ps arbitrary: st)
  case Nil
  then show ?case by simp
next
  case (Cons q qs)
  from Cons.prems(2) obtain s1 where 1: "process_part q st = Inr s1"
    and 2: "fold_err process_part qs s1 = Inr st'"
    by (auto split: sum.splits)
  show ?case
  proof (cases "p = q")
    case True
    from process_part_text_entry [OF assms(2) assms(3) assms(4) 1 [folded True]]
      grows_prefix [OF parts_grow [OF 2]]
    show ?thesis by (rule prefix_set [rotated])
  next
    case False
    with Cons.prems(1) have "p \<in> set qs" by simp
    from Cons.IH [OF this 2] show ?thesis .
  qed
qed

lemma event_text_entry:
  assumes "event_content ev = Some c" "parts c = Some ps" "p \<in> set ps"
    "part_inline_data p = Some inline" "blob_data inline = Some (PyText d)" "d \<noteq> []"
    "process_event srv ev st = Inr st'"
  shows "[(''mime_type'', PyStr (or_default (blob_mime_type inline) ''application/octet-stream'')),
          (''data'', PyStr d), (''display_name'', opt_val (blob_display_name inline))]
         \<in> set (artifacts st')"
proof -
  have ne: "ps \<noteq> []" using assms(3) by auto
  from process_event_run [OF assms(1) assms(2) ne assms(7)] obtain st1 where
    1: "fold_err process_part ps st = Inr st1"
    and 2: "st' = st1 \<or> (\<exists>load ds. fold_err (add_delta load) ds st1 = Inr st')"
    by blast
  from 2 have "prefix (artifacts st1) (artifacts st')"
    by (auto dest!: deltas_grow grows_prefix)
  with parts_text_entry [OF assms(3) assms(4) assms(5) assms(6) 1]
  show ?thesis by (rule prefix_set [rotated])
qed

lemma events_text_entry:
  assumes "ev \<in> set es" "event_content ev = Some c" "parts c = Some ps" "p \<in> set ps"
    "part_inline_data p = Some inline" "blob_data inline = Some (PyText d)" "d \<noteq> []"
    "fold_err (process_event srv) es st = Inr st'"
  shows "[(''mime_type'', PyStr (or_default (blob_mime_type inline) ''application/octet-stream'')),
          (''data'', PyStr d), (''display_name'', opt_val (blob_display_name inline))]
         \<in> set (artifacts st')"
  using assms(1) assms(8)
proof (induction es arbitrary: st)
  case Nil
  then show ?case by simp
next
  case (Cons e es)
  from Cons.prems(2) obtain s1 where 1: "process_event srv e st = Inr s1"
    and 2: "fold_err (process_event srv) es s1 = Inr st'"
    by (auto split: sum.splits)
  show ?case
  proof (cases "ev = e")
    case True
    from event_text_entry [OF assms(2) assms(3) assms(4) assms(5) assms(6) assms(7) 1 [folded True]]
      grows_prefix [OF events_grow [OF 2]]
    show ?thesis by (rule prefix_set [rotated])
  next
    case False
    with Cons.prems(1) have "ev \<in> set es" by simp
    from Cons.IH [OF this 2] show ?thesis .
  qed
qed

lemma validate_nameless:
  "validate_Artifact [(''mime_type'', m), (''data'', d), (''display_name'', v)] = Inl ValidationError"
  by (simp add: validate_Artifact_def)

lemma validate_all_fails:
  assumes "x \<in> set xs" "f x = Inl ValidationError"
    and "\<And>y e. f y = Inl e \<Longrightarrow> e = ValidationError"
  shows "validate_all f xs = Inl ValidationError"
  using assms(1)
proof (induction xs)
  case Nil
  then show ?case by simp
next
  case (Cons y ys)
  show ?case
  proof (cases "f y")
    case (Inl e)
    with assms(3) [of y e] show ?thesis by simp
  next
    case (Inr z)
    with Cons assms(2) have "validate_all f ys = Inl ValidationError" by auto
    with Inr show ?thesis by simp
  qed
qed

lemma validate_all_error:
  assumes "validate_all f xs = Inl e" and "\<And>y e. f y = Inl e \<Longrightarrow> e = ValidationError"
  shows "e = ValidationError"
  using assms(1)
proof (induction xs)
  case Nil
  then show ?case by simp
next
  case (Cons y ys)
  then show ?case using assms(2) [of y] by (auto split: sum.splits)
qed

lemma validate_Artifact_error: "validate_Artifact a = Inl e \<Longrightarrow> e = ValidationError"
  by (auto simp: validate_Artifact_def split: option.splits pyval.splits if_splits)

lemma validate_ToolCall_error: "validate_ToolCall a = Inl e \<Longrightarrow> e = ValidationError"
  by (auto simp: validate_ToolCall_def split: option.splits)

lemma validate_ToolResponse_error: "validate_ToolResponse a = Inl e \<Longrightarrow> e = ValidationError"
  by (auto simp: validate_ToolResponse_def split: option.splits)

lemma create_chat_completion_invalid:
  assumes "fst (send_message R svc (request_user_id req) (request_message req)) = Inr r"
    "a \<in> set (result_artifacts r)" "validate_Artifact a = Inl ValidationError"
  shows "fst (create_chat_completion R svc req) = Inl ValidationError"
proof -
  obtain svc' where sm: "send_message R svc (request_user_id req) (request_message req) = (Inr r, svc')"
    using assms(1) by (cases "send_message R svc (request_user_id req) (request_message req)") simp
  have A: "validate_all validate_Artifact (result_artifacts r) = Inl ValidationError"
    by (rule validate_all_fails [where f = validate_Artifact, OF assms(2) assms(3)])
       (rule validate_Artifact_error)
  show ?thesis
  proof (cases "validate_all validate_ToolCall (result_tool_calls r)")
    case (Inl e)
    with validate_all_error [OF Inl] validate_ToolCall_error sm show ?thesis
      by (simp add: create_chat_completion_def)
  next
    case tc: (Inr tcs)
    show ?thesis
    proof (cases "validate_all validate_ToolResponse (result_tool_responses r)")
      case (Inl e)
      with validate_all_error [OF Inl] validate_ToolResponse_error sm tc show ?thesis
        by (simp add: create_chat_completion_def)
    next
      case (Inr trs)
      with sm tc A show ?thesis by (simp add: create_chat_completion_def)
    qed
  qed
qed

text \<open>
  Claim C10. Whenever \<open>send_message\<close> returns for a stream in which a part carries a
  non-empty \<open>str\<close> as inline payload, the artifact list has an entry with no \<open>name\<close>
  field (and that payload as data); the \<open>Artifact\<close> model refuses it, so building the
  response raises a validation error.
\<close>

theorem inline_data_nameless_entry:
  assumes r: "fst (send_message R svc (request_user_id req) (request_message req)) = Inr r"
    and s: "fst (ensure_session R svc (request_user_id req)) = Inr s"
    and ev: "ev \<in> set (fst (run_async R s (request_message req)))"
    and c: "event_content ev = Some c" "parts c = Some ps" "p \<in> set ps"
    and i: "part_inline_data p = Some inline" "blob_data inline = Some (PyText d)" "d \<noteq> []"
  shows "\<exists>a. a \<in> set (result_artifacts r) \<and> map_of a ''name'' = None
           \<and> map_of a ''data'' = Some (PyStr d)
           \<and> validate_Artifact a = Inl ValidationError
           \<and> fst (create_chat_completion R svc req) = Inl ValidationError"
proof -
  let ?a = "[(''mime_type'', PyStr (or_default (blob_mime_type inline) ''application/octet-stream'')),
          (''data'', PyStr d), (''display_name'', opt_val (blob_display_name inline))]"
  from send_message_Inr [OF r] s obtain st where
    co: "consume_events (map_option (\<lambda>load. load s) (artifact_service R))
           (run_async R s (request_message req)) = Inr st"
    and cl: "collate st = Inr r" by auto
  from co have "fold_err (process_event (map_option (\<lambda>load. load s) (artifact_service R)))
                  (fst (run_async R s (request_message req))) new_turn = Inr st"
    by (simp add: consume_events_Inr)
  from events_text_entry [OF ev c i this] have "?a \<in> set (artifacts st)" .
  moreover from cl obtain figs where "result_artifacts r = artifacts st @ figs"
    by (metis collate_Inr result.select_convs(4))
  ultimately have m: "?a \<in> set (result_artifacts r)" by simp
  have n: "map_of ?a ''name'' = None" "map_of ?a ''data'' = Some (PyStr d)" by simp_all
  have w: "validate_Artifact ?a = Inl ValidationError" by (rule validate_nameless)
  from create_chat_completion_invalid [OF r m w] m n w show ?thesis by blast
qed


theorem inline_data_nameless_entry_witness:
  "fst (send_message
          (stub_runner ([inline_event \<lparr>blob_data = Some (PyText ''QUJD''),
                                        blob_mime_type = Some ''image/png'',
                                        blob_display_name = Some ''plot.png''\<rparr>], None))
          new_service ''u1'' ''plot'')
   = Inr \<lparr>result_text = [], result_tool_calls = [], result_tool_responses = [],
          result_artifacts =
            [[(''mime_type'', PyStr ''image/png''), (''data'', PyStr ''QUJD''),
              (''display_name'', PyStr ''plot.png'')],
             [(''name'', PyStr ''plot.png''), (''mime_type'', PyStr ''image/png''),
              (''data'', PyStr ''QUJD''), (''display_name'', PyStr ''plot.png'')]]\<rparr>
   \<and> b64decode_validate ''QUJD'' = Decoded
   \<and> (\<exists>a. a \<in> set [[(''mime_type'', PyStr ''image/png''), (''data'', PyStr ''QUJD''),
                        (''display_name'', PyStr ''plot.png'')],
                       [(''name'', PyStr ''plot.png''), (''mime_type'', PyStr ''image/png''),
                        (''data'', PyStr ''QUJD''), (''display_name'', PyStr ''plot.png'')]]
          \<and> map_of a ''name'' = None
          \<and> map_of a ''data'' = Some (PyStr ''QUJD'')
          \<and> validate_Artifact a = Inl ValidationError
          \<and> fst (create_chat_completion
                  (stub_runner ([inline_event \<lparr>blob_data = Some (PyText ''QUJD''),
                                                blob_mime_type = Some ''image/png'',
                                                blob_display_name = Some ''plot.png''\<rparr>], None))
                  new_service \<lparr>request_user_id = ''u1'', request_message = ''plot''\<rparr>)
            = Inl ValidationError)"
proof -
  let ?b = "\<lparr>blob_data = Some (PyText ''QUJD''), blob_mime_type = Some ''image/png'',
             blob_display_name = Some ''plot.png''\<rparr>"
  let ?R = "stub_runner ([inline_event ?b], None)"
  let ?req = "\<lparr>request_user_id = ''u1'', request_message = ''plot''\<rparr>"
  let ?as = "[[(''mime_type'', PyStr ''image/png''), (''data'', PyStr ''QUJD''),
              (''display_name'', PyStr ''plot.png'')],
             [(''name'', PyStr ''plot.png''), (''mime_type'', PyStr ''image/png''),
              (''data'', PyStr ''QUJD''), (''display_name'', PyStr ''plot.png'')]]"
  let ?r = "\<lparr>result_text = [], result_tool_calls = [], result_tool_responses = [],
             result_artifacts = ?as\<rparr>"
  let ?p = "\<lparr>part_text = None, part_function_call = None,
         part_function_response = None, part_code_execution_result = None,
         part_inline_data = Some ?b\<rparr>"
  have h: "fst (send_message ?R new_service ''u1'' ''plot'') = Inr ?r" by code_simp
  have r: "fst (send_message ?R new_service (request_user_id ?req) (request_message ?req)) = Inr ?r"
    using h by simp
  have s: "fst (ensure_session ?R new_service (request_user_id ?req))
           = Inr \<lparr>session_user_id = ''u1'', session_id = []\<rparr>"
    by code_simp
  have ev: "inline_event ?b \<in> set (fst (run_async ?R \<lparr>session_user_id = ''u1'', session_id = []\<rparr>
                                       (request_message ?req)))"
    by (simp add: stub_runner_def)
  have c: "event_content (inline_event ?b) = Some \<lparr>parts = Some [?p]\<rparr>"
    "parts \<lparr>parts = Some [?p]\<rparr> = Some [?p]" "?p \<in> set [?p]"
    by (simp_all add: inline_event_def)
  have i: "part_inline_data ?p = Some ?b" "blob_data ?b = Some (PyText ''QUJD'')" "''QUJD'' \<noteq> []"
    by simp_all
  have v: "b64decode_validate ''QUJD'' = Decoded" by code_simp
  from inline_data_nameless_entry [OF r s ev c i]
  have "\<exists>a. a \<in> set ?as \<and> map_of a ''name'' = None
           \<and> map_of a ''data'' = Some (PyStr ''QUJD'')
           \<and> validate_Artifact a = Inl ValidationError
           \<and> fst (create_chat_completion ?R new_service ?req) = Inl ValidationError"
    by simp
  with h v show ?thesis by blast
qed

lemma create_chat_completion_failure:
  assumes "fst (send_message R svc (request_user_id req) (request_message req)) = Inl e"
  shows "fst (create_chat_completion R svc req)
         = (if is_exception e then Inl (HTTPException 500 ''Failed to retrieve agent response.'')
            else Inl e)"
  using assms
  by (cases "send_message R svc (request_user_id req) (request_message req)")
     (simp add: create_chat_completion_def)

lemma consume_events_failure:
  assumes "snd stream = Some e"
  shows "\<exists>e'. consume_events srv stream = Inl e'
              \<and> ((\<exists>st. fold_err (process_event srv) (fst stream) new_turn = Inr st) \<longrightarrow> e' = e)"
  using assms by (auto simp: consume_events_def split: sum.splits)

text \<open>
  Claim C8, as amended. When the stream of the turn raises, \<open>send_message\<close> raises: the
  exception of the stream, unless the processing of an earlier event has raised before.
  The result of the API boundary is then an error value, with no text, tool call or
  artifact. When the exception is an \<open>Exception\<close>, it is the one failure
  \<open>HTTPException(500, "Failed to retrieve agent response.")\<close>; an exception that is not
  (\<open>asyncio.CancelledError\<close>, \<open>SystemExit\<close>, \<open>KeyboardInterrupt\<close>) leaves the boundary
  as it is.
\<close>

theorem stream_failure_is_http_500:
  assumes "fst (ensure_session R svc (request_user_id req)) = Inr s"
    and "snd (run_async R s (request_message req)) = Some e"
  shows "\<exists>e'. fst (send_message R svc (request_user_id req) (request_message req)) = Inl e'
           \<and> ((\<exists>st. fold_err (process_event (map_option (\<lambda>load. load s) (artifact_service R)))
                       (fst (run_async R s (request_message req))) new_turn = Inr st)
                \<longrightarrow> e' = e)
           \<and> (is_exception e' \<longrightarrow>
                fst (create_chat_completion R svc req)
                = Inl (HTTPException 500 ''Failed to retrieve agent response.''))
           \<and> (\<not> is_exception e' \<longrightarrow> fst (create_chat_completion R svc req) = Inl e')"
proof -
  obtain svc' where es: "ensure_session R svc (request_user_id req) = (Inr s, svc')"
    using assms(1) by (cases "ensure_session R svc (request_user_id req)") simp
  from consume_events_failure [OF assms(2)] obtain e' where
    c: "consume_events (map_option (\<lambda>load. load s) (artifact_service R))
       (run_async R s (request_message req)) = Inl e'"
    and d: "(\<exists>st. fold_err (process_event (map_option (\<lambda>load. load s) (artifact_service R)))
                       (fst (run_async R s (request_message req))) new_turn = Inr st)
                \<longrightarrow> e' = e"
    by blast
  from c es have f: "fst (send_message R svc (request_user_id req) (request_message req)) = Inl e'"
    by (simp add: send_message_def)
  from create_chat_completion_failure [OF f] f d show ?thesis by auto
qed

theorem stream_failure_is_http_500_witness:
  "fst (ensure_session (stub_runner ([text_event ''partial''], Some (RuntimeFailure ''boom'')))
          new_service ''u1'') = Inr \<lparr>session_user_id = ''u1'', session_id = []\<rparr>
   \<and> snd (run_async (stub_runner ([text_event ''partial''], Some (RuntimeFailure ''boom'')))
            \<lparr>session_user_id = ''u1'', session_id = []\<rparr> ''hi'') = Some (RuntimeFailure ''boom'')
   \<and> is_exception (RuntimeFailure ''boom'')
   \<and> fst (send_message (stub_runner ([text_event ''partial''], Some (RuntimeFailure ''boom'')))
            new_service ''u1'' ''hi'') = Inl (RuntimeFailure ''boom'')
   \<and> fst (create_chat_completion
            (stub_runner ([text_event ''partial''], Some (RuntimeFailure ''boom'')))
            new_service \<lparr>request_user_id = ''u1'', request_message = ''hi''\<rparr>)
     = Inl (HTTPException 500 ''Failed to retrieve agent response.'')"
proof -
  let ?R = "stub_runner ([text_event ''partial''], Some (RuntimeFailure ''boom''))"
  let ?req = "\<lparr>request_user_id = ''u1'', request_message = ''hi''\<rparr>"
  have s: "fst (ensure_session ?R new_service (request_user_id ?req))
           = Inr \<lparr>session_user_id = ''u1'', session_id = []\<rparr>"
    by code_simp
  have e: "snd (run_async ?R \<lparr>session_user_id = ''u1'', session_id = []\<rparr> (request_message ?req))
           = Some (RuntimeFailure ''boom'')"
    by (simp add: stub_runner_def)
  have m: "fst (send_message ?R new_service ''u1'' ''hi'') = Inl (RuntimeFailure ''boom'')"
    by code_simp
  have x: "is_exception (RuntimeFailure ''boom'')" by (simp add: is_exception_def)
  from stream_failure_is_http_500 [OF s e] obtain e' where
    1: "fst (send_message ?R new_service (request_user_id ?req) (request_message ?req)) = Inl e'"
    and 2: "is_exception e' \<longrightarrow>
              fst (create_chat_completion ?R new_service ?req)
              = Inl (HTTPException 500 ''Failed to retrieve agent response.'')"
    by blast
  from 1 m have "e' = RuntimeFailure ''boom''" by simp
  with 2 x have "fst (create_chat_completion ?R new_service ?req)
              = Inl (HTTPException 500 ''Failed to retrieve agent response.'')" by simp
  with s e m x show ?thesis by simp
qed

text \<open>
  The handler is \<open>except Exception\<close>. A stream that raises \<open>SystemExit\<close> (the code
  executors run generated code under \<open>except Exception\<close> as well, so an exit in that
  code reaches the stream) is not converted: the exception leaves the boundary as it is.
\<close>

theorem stream_base_exception_counterexample:
  "snd (run_async (stub_runner ([text_event ''partial''], Some SystemExit))
          \<lparr>session_user_id = ''u1'', session_id = []\<rparr> ''hi'') = Some SystemExit
   \<and> fst (create_chat_completion (stub_runner ([text_event ''partial''], Some SystemExit))
            new_service \<lparr>request_user_id = ''u1'', request_message = ''hi''\<rparr>)
     = Inl SystemExit"
  by code_simp

lemma ensure_session_keeps:
  assumes "sessions svc u = Some h"
  shows "sessions (snd (ensure_session R svc v)) u = Some h"
  using assms
  by (cases "u = v")
     (auto simp: ensure_session_def split: option.splits prod.splits sum.splits)

lemma ensure_sessions_keep:
  "sessions svc u = Some h \<Longrightarrow> sessions (ensure_sessions R us svc) u = Some h"
proof (induction us arbitrary: svc)
  case Nil
  then show ?case by simp
next
  case (Cons v vs)
  from Cons.IH [OF ensure_session_keeps [OF Cons.prems, of R v]] show ?case by simp
qed

lemma ensure_session_hit: "sessions svc u = Some h \<Longrightarrow> ensure_session R svc u = (Inr h, svc)"
  by (simp add: ensure_session_def)

text \<open>
  Claim C9. A call of \<open>_ensure_session\<close> that returns a handle returns the registered one
  when the user has one, leaving the service as it is, and otherwise the one that the
  runtime creates, which it stores. After it, whatever calls follow, a call for the same
  user returns the same handle and changes nothing, no call removes or changes an entry
  of the registry, and \<open>send_message\<close> changes the service only through this call.
\<close>

theorem ensure_session_registry:
  assumes "ensure_session R svc uid = (Inr s, svc')"
  shows "(\<forall>h. sessions svc uid = Some h \<longrightarrow> s = h \<and> svc' = svc)
       \<and> (sessions svc uid = None \<longrightarrow>
            (\<exists>rt. create_session R (runner_state svc) uid = (Inr s, rt)
                 \<and> svc' = svc\<lparr>runner_state := rt, sessions := (sessions svc)(uid \<mapsto> s)\<rparr>))
       \<and> sessions svc' uid = Some s
       \<and> (\<forall>us. ensure_session R (ensure_sessions R us svc') uid
                  = (Inr s, ensure_sessions R us svc'))
       \<and> (\<forall>us u h. sessions svc u = Some h \<longrightarrow> sessions (ensure_sessions R us svc) u = Some h)
       \<and> (\<forall>msg. snd (send_message R svc uid msg) = svc')"
proof -
  have 1: "\<forall>h. sessions svc uid = Some h \<longrightarrow> s = h \<and> svc' = svc"
    using assms by (auto simp: ensure_session_def)
  have 2: "sessions svc uid = None \<longrightarrow>
            (\<exists>rt. create_session R (runner_state svc) uid = (Inr s, rt)
                 \<and> svc' = svc\<lparr>runner_state := rt, sessions := (sessions svc)(uid \<mapsto> s)\<rparr>)"
    using assms by (auto simp: ensure_session_def split: option.splits prod.splits sum.splits)
  have 3: "sessions svc' uid = Some s"
    using assms by (auto simp: ensure_session_def split: option.splits prod.splits sum.splits)
  have 4: "\<forall>us. ensure_session R (ensure_sessions R us svc') uid
                  = (Inr s, ensure_sessions R us svc')"
    using ensure_session_hit [OF ensure_sessions_keep [OF 3]] by blast
  have 5: "\<forall>us u h. sessions svc u = Some h \<longrightarrow> sessions (ensure_sessions R us svc) u = Some h"
    using ensure_sessions_keep by blast
  have 6: "\<forall>msg. snd (send_message R svc uid msg) = svc'"
    using assms by (simp add: send_message_def split: sum.splits)
  from 1 2 3 4 5 6 show ?thesis by blast
qed

theorem ensure_session_registry_witness:
  "ensure_session (stub_runner ([], None)) new_service ''u1''
   = (Inr \<lparr>session_user_id = ''u1'', session_id = []\<rparr>,
      new_service\<lparr>runner_state := Suc 0,
                  sessions := (sessions new_service)(''u1'' \<mapsto> \<lparr>session_user_id = ''u1'', session_id = []\<rparr>)\<rparr>)
   \<and> fst (ensure_session (stub_runner ([], None))
            (ensure_sessions (stub_runner ([], None)) [''u2'', ''u1'', ''u3'']
               (new_service\<lparr>runner_state := Suc 0,
                  sessions := (sessions new_service)(''u1'' \<mapsto> \<lparr>session_user_id = ''u1'', session_id = []\<rparr>)\<rparr>))
            ''u1'')
     = Inr \<lparr>session_user_id = ''u1'', session_id = []\<rparr>
   \<and> fst (ensure_session (stub_runner ([], None))
            (ensure_sessions (stub_runner ([], None)) [''u2'', ''u1'', ''u3'']
               (new_service\<lparr>runner_state := Suc 0,
                  sessions := (sessions new_service)(''u1'' \<mapsto> \<lparr>session_user_id = ''u1'', session_id = []\<rparr>)\<rparr>))
            ''u2'')
     = Inr \<lparr>session_user_id = ''u2'', session_id = ''s''\<rparr>"
proof -
  let ?R = "stub_runner ([], None)"
  let ?s = "\<lparr>session_user_id = ''u1'', session_id = []\<rparr>"
  let ?svc = "new_service\<lparr>runner_state := Suc 0, sessions := (sessions new_service)(''u1'' \<mapsto> ?s)\<rparr>"
  have h: "ensure_session ?R new_service ''u1'' = (Inr ?s, ?svc)"
    by (simp add: ensure_session_def stub_runner_def new_service_def)
  from ensure_session_registry [OF h]
  have 4: "\<forall>us. ensure_session ?R (ensure_sessions ?R us ?svc) ''u1''
                  = (Inr ?s, ensure_sessions ?R us ?svc)" by blast
  have a: "fst (ensure_session ?R (ensure_sessions ?R [''u2'', ''u1'', ''u3''] ?svc) ''u1'') = Inr ?s"
    using 4 [rule_format, of "[''u2'', ''u1'', ''u3'']"] by simp
  have b: "fst (ensure_session ?R (ensure_sessions ?R [''u2'', ''u1'', ''u3''] ?svc) ''u2'')
           = Inr \<lparr>session_user_id = ''u2'', session_id = ''s''\<rparr>"
    by (simp add: ensure_session_def stub_runner_def new_service_def)
  from h a b show ?thesis by simp
qed

end
